theory Spec2Isabelle
  imports Main "HOL-Library.Word"
begin

section \<open>Memory, outcomes and the instrumented element kind\<close>

text \<open>
  The container of \<^verbatim>\<open>vector.h\<close> owns one heap block of element slots. The model keeps
  an explicit heap: a block is a list of slots, a slot is \<open>None\<close> while it is raw
  storage and \<open>Some x\<close> while a live element with value \<open>x\<close> sits in it. A pointer
  to an element is the pair of its block's address and the element offset in the block;
  address \<open>0\<close> is \<^verbatim>\<open>nullptr\<close>. \<^verbatim>\<open>size_t\<close> is a 64-bit word.

  Every way a call can end is a value: \<open>Ok\<close> (normal return), \<open>Throw\<close> (a C++
  exception leaves the call) and \<open>Fault\<close> (undefined behaviour or a failed
  \<^verbatim>\<open>assert\<close>: an access outside a block, a read of a raw slot, a destructor call on a
  raw slot). A call that never returns is \<open>None\<close> of the surrounding option.
\<close>

type_synonym size_t = "64 word"
type_synonym addr = nat
type_synonym ptr = "addr \<times> nat"

datatype error = CopyFailed

datatype ('r, 's) res = Ok 'r 's | Throw error 's | Fault

text \<open>
  The world: the heap, the allocator's next fresh address, and the two static counters of
  \<^verbatim>\<open>counted<T>\<close> in \<^verbatim>\<open>main.cpp\<close> (\<^verbatim>\<open>throw_countdown\<close> and \<^verbatim>\<open>instances()\<close>).
  \<open>dtor_log\<close> lists, in call order, the slots on which an element destructor ran; it
  is the only ghost field and exists to state in which order elements are destroyed.
\<close>

record 'a world =
  heap :: "addr \<Rightarrow> 'a option list option"
  next_addr :: addr
  throw_countdown :: size_t
  instances :: size_t
  dtor_log :: "ptr list"

text \<open>\<^verbatim>\<open>counted::copy()\<close>: counts down and throws when the countdown reaches zero.\<close>

definition counted_copy :: "'a world \<Rightarrow> (unit, 'a world) res" where
  "counted_copy w =
     (if throw_countdown w \<noteq> 0 then
        (if throw_countdown w - 1 = 0
         then Throw CopyFailed (w\<lparr>throw_countdown := throw_countdown w - 1\<rparr>)
         else Ok () (w\<lparr>throw_countdown := throw_countdown w - 1\<rparr>))
      else Ok () w)"

text \<open>\<^verbatim>\<open>counted(counted const& rhs)\<close>: \<^verbatim>\<open>val(rhs.val)\<close>, then \<^verbatim>\<open>copy()\<close>, then
  \<^verbatim>\<open>++instances()\<close>. The result is the value of the new object.\<close>

definition counted_copy_ctor :: "'a \<Rightarrow> 'a world \<Rightarrow> ('a, 'a world) res" where
  "counted_copy_ctor rhs w =
     (case counted_copy w of
        Fault \<Rightarrow> Fault
      | Throw e w' \<Rightarrow> Throw e w'
      | Ok _ w' \<Rightarrow> Ok rhs (w'\<lparr>instances := instances w' + 1\<rparr>))"

text \<open>\<^verbatim>\<open>counted::operator=\<close>: \<^verbatim>\<open>copy()\<close>, then \<^verbatim>\<open>val = rhs.val\<close>.\<close>

definition counted_assign :: "'a \<Rightarrow> 'a world \<Rightarrow> ('a, 'a world) res" where
  "counted_assign rhs w =
     (case counted_copy w of
        Fault \<Rightarrow> Fault
      | Throw e w' \<Rightarrow> Throw e w'
      | Ok _ w' \<Rightarrow> Ok rhs w')"

text \<open>\<^verbatim>\<open>~counted()\<close>: \<^verbatim>\<open>--instances()\<close>.\<close>

definition counted_dtor :: "'a world \<Rightarrow> 'a world" where
  "counted_dtor w = w\<lparr>instances := instances w - 1\<rparr>"

subsection \<open>Slots\<close>

definition ptr_add :: "ptr \<Rightarrow> nat \<Rightarrow> ptr" where
  "ptr_add p n = (fst p, snd p + n)"

text \<open>Pointer difference, converted to \<^verbatim>\<open>size_t\<close> as the callers do; it is defined
  only inside one block.\<close>

definition ptr_diff :: "ptr \<Rightarrow> ptr \<Rightarrow> size_t option" where
  "ptr_diff p q =
     (if fst p = fst q then Some (word_of_int (int (snd p) - int (snd q))) else None)"

definition in_bounds :: "ptr \<Rightarrow> 'a world \<Rightarrow> bool" where
  "in_bounds p w = (case heap w (fst p) of None \<Rightarrow> False | Some b \<Rightarrow> snd p < length b)"

text \<open>The live element at \<open>p\<close>, if there is one.\<close>

definition load :: "ptr \<Rightarrow> 'a world \<Rightarrow> 'a option" where
  "load p w =
     (case heap w (fst p) of
        None \<Rightarrow> None
      | Some b \<Rightarrow> if snd p < length b then b ! snd p else None)"

definition store :: "ptr \<Rightarrow> 'a option \<Rightarrow> 'a world \<Rightarrow> 'a world" where
  "store p x w =
     (case heap w (fst p) of
        None \<Rightarrow> w
      | Some b \<Rightarrow> w\<lparr>heap := (heap w)(fst p \<mapsto> b[snd p := x])\<rparr>)"

text \<open>\<^verbatim>\<open>new (p) T(x)\<close>: placement copy construction of the value \<open>x\<close> in the slot
  \<open>p\<close>. The slot stays as it was when the copy constructor throws.\<close>

definition construct_at :: "ptr \<Rightarrow> 'a \<Rightarrow> 'a world \<Rightarrow> (unit, 'a world) res" where
  "construct_at p x w =
     (if \<not> in_bounds p w then Fault
      else case counted_copy_ctor x w of
        Fault \<Rightarrow> Fault
      | Throw e w' \<Rightarrow> Throw e w'
      | Ok y w' \<Rightarrow> Ok () (store p (Some y) w'))"

text \<open>\<^verbatim>\<open>p->~T()\<close>. Destructors do not throw: \<open>None\<close> is the fault.\<close>

definition destroy_at :: "ptr \<Rightarrow> 'a world \<Rightarrow> 'a world option" where
  "destroy_at p w =
     (case load p w of
        None \<Rightarrow> None
      | Some _ \<Rightarrow> Some (store p None (counted_dtor w\<lparr>dtor_log := dtor_log w @ [p]\<rparr>)))"

text \<open>\<^verbatim>\<open>*p = x\<close> through \<^verbatim>\<open>counted::operator=\<close>.\<close>

definition assign_at :: "ptr \<Rightarrow> 'a \<Rightarrow> 'a world \<Rightarrow> (unit, 'a world) res" where
  "assign_at p x w =
     (case load p w of
        None \<Rightarrow> Fault
      | Some _ \<Rightarrow>
         (case counted_assign x w of
            Fault \<Rightarrow> Fault
          | Throw e w' \<Rightarrow> Throw e w'
          | Ok y w' \<Rightarrow> Ok () (store p (Some y) w')))"

text \<open>
  \<^verbatim>\<open>std::swap(*p, *q)\<close> for an element kind with a user-declared copy constructor and
  copy assignment and no move operations, as \<^verbatim>\<open>counted\<close> is: the library's
  \<^verbatim>\<open>T tmp(std::move(a)); a = std::move(b); b = std::move(tmp);\<close> copies three times,
  and \<^verbatim>\<open>tmp\<close> is destroyed on every exit after its construction.
\<close>

definition swap_at :: "ptr \<Rightarrow> ptr \<Rightarrow> 'a world \<Rightarrow> (unit, 'a world) res" where
  "swap_at p q w =
     (case load p w of
        None \<Rightarrow> Fault
      | Some a \<Rightarrow>
         (case load q w of
            None \<Rightarrow> Fault
          | Some b \<Rightarrow>
             (case counted_copy_ctor a w of
                Fault \<Rightarrow> Fault
              | Throw e w1 \<Rightarrow> Throw e w1
              | Ok tmp w1 \<Rightarrow>
                 (case assign_at p b w1 of
                    Fault \<Rightarrow> Fault
                  | Throw e w2 \<Rightarrow> Throw e (counted_dtor w2)
                  | Ok _ w2 \<Rightarrow>
                     (case assign_at q tmp w2 of
                        Fault \<Rightarrow> Fault
                      | Throw e w3 \<Rightarrow> Throw e (counted_dtor w3)
                      | Ok _ w3 \<Rightarrow> Ok () (counted_dtor w3))))))"

subsection \<open>The allocator\<close>

text \<open>
  \<^verbatim>\<open>sizeof(T)\<close>. The element kind is \<^verbatim>\<open>counted<size_t>\<close>, the one the tests of
  \<^verbatim>\<open>main.cpp\<close> instantiate the container with: its only non-static member is the
  \<^verbatim>\<open>size_t val\<close>, eight bytes where \<^verbatim>\<open>size_t\<close> has 64 bits.
\<close>

definition sizeof_T :: size_t where
  "sizeof_T = 8"

text \<open>
  \<^verbatim>\<open>operator new(bytes)\<close>. The argument is the byte count the caller computed in
  \<^verbatim>\<open>size_t\<close>; the block has room for as many elements as fit into that many bytes.
  The language guarantees a non-null pointer that differs from every block still
  allocated, also for a request of zero bytes; the model hands out consecutive fresh
  addresses and never reuses one. The allocator of the model has no limit: it serves
  every request, so \<^verbatim>\<open>std::bad_alloc\<close> is never thrown.
\<close>

definition operator_new :: "size_t \<Rightarrow> 'a world \<Rightarrow> addr \<times> 'a world" where
  "operator_new bytes w =
     (next_addr w,
      w\<lparr>heap := (heap w)(next_addr w \<mapsto> replicate (unat bytes div unat sizeof_T) None),
        next_addr := next_addr w + 1\<rparr>)"

text \<open>\<^verbatim>\<open>operator delete(a)\<close>: nothing for \<^verbatim>\<open>nullptr\<close>, a fault for an address that
  is not an allocated block.\<close>

definition operator_delete :: "addr \<Rightarrow> 'a world \<Rightarrow> 'a world option" where
  "operator_delete a w =
     (if a = 0 then Some w
      else case heap w a of
        None \<Rightarrow> None
      | Some _ \<Rightarrow> Some (w\<lparr>heap := (heap w)(a := None)\<rparr>))"

section \<open>Element lifecycle helpers\<close>

lemma size_t_loop_step: "i \<noteq> n \<Longrightarrow> unat (n - (i + 1)) < unat (n - i)" for i n :: size_t
proof -
  assume "i \<noteq> n"
  then have nz: "n - i \<noteq> 0" by simp
  have eq: "n - (i + 1) = (n - i) - 1" by simp
  have "unat ((n - i) - 1) = unat (n - i) - 1" by (rule unat_minus_one [OF nz])
  moreover have "0 < unat (n - i)" using nz by (simp add: unat_gt_0)
  ultimately have "unat ((n - i) - 1) < unat (n - i)" by linarith
  then show ?thesis unfolding eq .
qed

lemma size_t_loop_down: "i \<noteq> 0 \<Longrightarrow> unat (i - 1) < unat i" for i :: size_t
proof -
  assume nz: "i \<noteq> 0"
  have "unat (i - 1) = unat i - 1" by (rule unat_minus_one [OF nz])
  moreover have "0 < unat i" using nz by (simp add: unat_gt_0)
  ultimately show ?thesis by linarith
qed

text \<open>\<^verbatim>\<open>destroy_all(data, size)\<close>, the overload for element kinds with a destructor:
  \<^verbatim>\<open>for (size_t i = 0; i != size; i++) data[i].~TT();\<close>\<close>

function destroy_all_loop :: "ptr \<Rightarrow> size_t \<Rightarrow> size_t \<Rightarrow> 'a world \<Rightarrow> 'a world option" where
  "destroy_all_loop d i n w =
     (if i = n then Some w
      else case destroy_at (ptr_add d (unat i)) w of
        None \<Rightarrow> None
      | Some w' \<Rightarrow> destroy_all_loop d (i + 1) n w')"
  by pat_completeness auto
termination
  by (relation "measure (\<lambda>(d, i, n, w). unat (n - i))") (simp_all add: size_t_loop_step)

definition destroy_all :: "ptr \<Rightarrow> size_t \<Rightarrow> 'a world \<Rightarrow> 'a world option" where
  "destroy_all d n w = destroy_all_loop d 0 n w"

text \<open>
  \<^verbatim>\<open>copy_construct_all(dst, src, size)\<close>, the overload for element kinds that are not
  trivially copyable. \<open>cca_try\<close> is the loop of the \<^verbatim>\<open>try\<close> block; when a copy
  throws it hands the index \<open>i\<close> it had reached to the handler. \<open>cca_catch\<close> is the
  handler's loop \<^verbatim>\<open>while (i != 0) { dst[i - 1].~TT(); --i; }\<close>, after which the
  exception is thrown again.
\<close>

function cca_try :: "ptr \<Rightarrow> ptr \<Rightarrow> size_t \<Rightarrow> size_t \<Rightarrow> 'a world \<Rightarrow> (unit, size_t \<times> 'a world) res" where
  "cca_try dst src n i w =
     (if i = n then Ok () (i, w)
      else case load (ptr_add src (unat i)) w of
        None \<Rightarrow> Fault
      | Some x \<Rightarrow>
         (case construct_at (ptr_add dst (unat i)) x w of
            Fault \<Rightarrow> Fault
          | Throw e w' \<Rightarrow> Throw e (i, w')
          | Ok _ w' \<Rightarrow> cca_try dst src n (i + 1) w'))"
  by pat_completeness auto
termination
  by (relation "measure (\<lambda>(dst, src, n, i, w). unat (n - i))") (simp_all add: size_t_loop_step)

function cca_catch :: "ptr \<Rightarrow> size_t \<Rightarrow> 'a world \<Rightarrow> 'a world option" where
  "cca_catch dst i w =
     (if i = 0 then Some w
      else case destroy_at (ptr_add dst (unat (i - 1))) w of
        None \<Rightarrow> None
      | Some w' \<Rightarrow> cca_catch dst (i - 1) w')"
  by pat_completeness auto
termination
  by (relation "measure (\<lambda>(dst, i, w). unat i)") (simp_all add: size_t_loop_down)

definition copy_construct_all :: "ptr \<Rightarrow> ptr \<Rightarrow> size_t \<Rightarrow> 'a world \<Rightarrow> (unit, 'a world) res" where
  "copy_construct_all dst src n w =
     (case cca_try dst src n 0 w of
        Fault \<Rightarrow> Fault
      | Ok _ (i, w') \<Rightarrow> Ok () w'
      | Throw e (i, w') \<Rightarrow>
         (case cca_catch dst i w' of
            None \<Rightarrow> Fault
          | Some w'' \<Rightarrow> Throw e w''))"

section \<open>The container\<close>

record vec =
  m_data :: addr
  m_size :: size_t
  m_capacity :: size_t

text \<open>\<^verbatim>\<open>vector()\<close>\<close>

definition vector_ctor :: vec where
  "vector_ctor = \<lparr>m_data = 0, m_size = 0, m_capacity = 0\<rparr>"

text \<open>\<^verbatim>\<open>~vector()\<close>\<close>

definition vector_dtor :: "vec \<Rightarrow> 'a world \<Rightarrow> 'a world option" where
  "vector_dtor v w =
     (case destroy_all (m_data v, 0) (m_size v) w of
        None \<Rightarrow> None
      | Some w' \<Rightarrow> operator_delete (m_data v) w')"

text \<open>\<^verbatim>\<open>swap(other)\<close> exchanges the three fields of the two containers.\<close>

definition swap_vec :: "vec \<Rightarrow> vec \<Rightarrow> vec \<times> vec" where
  "swap_vec this other =
     (this\<lparr>m_data := m_data other, m_size := m_size other, m_capacity := m_capacity other\<rparr>,
      other\<lparr>m_data := m_data this, m_size := m_size this, m_capacity := m_capacity this\<rparr>)"

definition vbegin :: "vec \<Rightarrow> ptr" where
  "vbegin v = (m_data v, 0)"

definition vend :: "vec \<Rightarrow> ptr" where
  "vend v = (m_data v, unat (m_size v))"

text \<open>\<^verbatim>\<open>back()\<close> is \<^verbatim>\<open>m_data[m_size - 1]\<close>, the index computed in \<^verbatim>\<open>size_t\<close>.\<close>

definition back_ptr :: "vec \<Rightarrow> ptr" where
  "back_ptr v = (m_data v, unat (m_size v - 1))"

definition increase_capacity :: "vec \<Rightarrow> size_t" where
  "increase_capacity v = (if m_capacity v = 0 then 4 else m_capacity v * 3 div 2)"

text \<open>
  \<^verbatim>\<open>new_buffer(new_capacity)\<close>. The byte count \<^verbatim>\<open>new_capacity * sizeof(T)\<close> is a
  product in \<^verbatim>\<open>size_t\<close> and wraps around, while \<^verbatim>\<open>tmp.capacity_\<close> is set to
  \<^verbatim>\<open>new_capacity\<close> itself. The local \<^verbatim>\<open>tmp\<close> is destroyed on both exits: with the
  fresh block when a copy throws, with the old block and the old elements after the swap.
\<close>

definition new_buffer :: "vec \<Rightarrow> size_t \<Rightarrow> 'a world \<Rightarrow> (unit, vec \<times> 'a world) res" where
  "new_buffer v new_capacity w =
     (if new_capacity < m_size v then Fault
      else case operator_new (new_capacity * sizeof_T) w of
        (a, w1) \<Rightarrow>
          (case copy_construct_all (a, 0) (m_data v, 0) (m_size v) w1 of
             Fault \<Rightarrow> Fault
           | Throw e w2 \<Rightarrow>
              (case vector_dtor \<lparr>m_data = a, m_size = 0, m_capacity = new_capacity\<rparr> w2 of
                 None \<Rightarrow> Fault
               | Some w3 \<Rightarrow> Throw e (v, w3))
           | Ok _ w2 \<Rightarrow>
              (case swap_vec v \<lparr>m_data = a, m_size = m_size v, m_capacity = new_capacity\<rparr> of
                 (v', tmp) \<Rightarrow>
                   (case vector_dtor tmp w2 of
                      None \<Rightarrow> Fault
                    | Some w3 \<Rightarrow> Ok () (v', w3)))))"

text \<open>\<^verbatim>\<open>reserve(desired_capacity)\<close>\<close>

definition reserve :: "vec \<Rightarrow> size_t \<Rightarrow> 'a world \<Rightarrow> (unit, vec \<times> 'a world) res" where
  "reserve v desired_capacity w =
     (if desired_capacity < m_capacity v then Ok () (v, w)
      else new_buffer v desired_capacity w)"

text \<open>\<^verbatim>\<open>shrink_to_fit()\<close>\<close>

definition shrink_to_fit :: "vec \<Rightarrow> 'a world \<Rightarrow> (unit, vec \<times> 'a world) res" where
  "shrink_to_fit v w =
     (if m_capacity v = m_size v then Ok () (v, w)
      else new_buffer v (m_size v) w)"

text \<open>\<^verbatim>\<open>clear()\<close>\<close>

definition clear :: "vec \<Rightarrow> 'a world \<Rightarrow> (unit, vec \<times> 'a world) res" where
  "clear v w =
     (case destroy_all (m_data v, 0) (m_size v) w of
        None \<Rightarrow> Fault
      | Some w' \<Rightarrow> Ok () (v\<lparr>m_size := 0\<rparr>, w'))"

text \<open>\<^verbatim>\<open>pop_back()\<close>, with its \<^verbatim>\<open>assert(m_size != 0)\<close>.\<close>

definition pop_back :: "vec \<Rightarrow> 'a world \<Rightarrow> (unit, vec \<times> 'a world) res" where
  "pop_back v w =
     (if m_size v = 0 then Fault
      else case destroy_at (back_ptr v) w of
        None \<Rightarrow> Fault
      | Some w' \<Rightarrow> Ok () (v\<lparr>m_size := m_size v - 1\<rparr>, w'))"

text \<open>
  \<^verbatim>\<open>push_back_realloc(val)\<close>. It appends through \<^verbatim>\<open>tmp.push_back(val)\<close>, and
  \<^verbatim>\<open>push_back\<close> calls it: the member function it calls on \<^verbatim>\<open>tmp\<close> is its first
  argument here, so that the recursion of \<open>push_back\<close> through it is in the open.
  \<^verbatim>\<open>tmp\<close> is destroyed on every exit: with the new block when something throws, with
  the old block and the old elements after the swap.
\<close>

definition push_back_realloc ::
    "(vec \<Rightarrow> 'a \<Rightarrow> 'a world \<Rightarrow> (unit, vec \<times> 'a world) res option) \<Rightarrow>
     vec \<Rightarrow> 'a \<Rightarrow> 'a world \<Rightarrow> (unit, vec \<times> 'a world) res option" where
  "push_back_realloc tmp_push_back v val w =
     (case new_buffer vector_ctor (increase_capacity v) w of
        Fault \<Rightarrow> Some Fault
      | Throw e (tmp, w1) \<Rightarrow>
         Some (case vector_dtor tmp w1 of None \<Rightarrow> Fault | Some w2 \<Rightarrow> Throw e (v, w2))
      | Ok _ (tmp, w1) \<Rightarrow>
         (case copy_construct_all (m_data tmp, 0) (m_data v, 0) (m_size v) w1 of
            Fault \<Rightarrow> Some Fault
          | Throw e w2 \<Rightarrow>
             Some (case vector_dtor tmp w2 of None \<Rightarrow> Fault | Some w3 \<Rightarrow> Throw e (v, w3))
          | Ok _ w2 \<Rightarrow>
             Option.bind (tmp_push_back (tmp\<lparr>m_size := m_size v\<rparr>) val w2)
               (\<lambda>r. Some (case r of
                  Fault \<Rightarrow> Fault
                | Throw e (tmp', w3) \<Rightarrow>
                   (case vector_dtor tmp' w3 of
                      None \<Rightarrow> Fault
                    | Some w4 \<Rightarrow> Throw e (v, w4))
                | Ok _ (tmp', w3) \<Rightarrow>
                   (case swap_vec v tmp' of
                      (v', old) \<Rightarrow>
                        (case vector_dtor old w3 of
                           None \<Rightarrow> Fault
                         | Some w4 \<Rightarrow> Ok () (v', w4)))))))"

lemma mono_option_case_res:
  assumes "\<And>x s. mono_option (\<lambda>f. A f x s)" "\<And>e s. mono_option (\<lambda>f. B f e s)"
    "mono_option (\<lambda>f. C f)"
  shows "mono_option (\<lambda>f. case r of Ok x s \<Rightarrow> A f x s | Throw e s \<Rightarrow> B f e s | Fault \<Rightarrow> C f)"
  using assms by (cases r) simp_all

lemma mono_option_case_prod:
  assumes "\<And>a b. mono_option (\<lambda>f. A f a b)"
  shows "mono_option (\<lambda>f. case p of (a, b) \<Rightarrow> A f a b)"
  using assms by (cases p) simp

lemma push_back_realloc_mono [partial_function_mono]:
  assumes "\<And>t x s. mono_option (\<lambda>f. g f t x s)"
  shows "mono_option (\<lambda>f. push_back_realloc (g f) v val w)"
  unfolding push_back_realloc_def
  by (intro mono_option_case_res mono_option_case_prod partial_function_mono assms)

text \<open>
  \<^verbatim>\<open>push_back(val)\<close>. Nothing in the source bounds the recursion through
  \<^verbatim>\<open>push_back_realloc\<close>, so the result is an option and a call that never returns is
  \<open>None\<close>. The argument is the value the reference \<^verbatim>\<open>val\<close> denotes.
\<close>

partial_function (option) push_back ::
    "vec \<Rightarrow> 'a \<Rightarrow> 'a world \<Rightarrow> (unit, vec \<times> 'a world) res option" where
  "push_back v val w =
     (if m_size v \<noteq> m_capacity v then
        Some (case construct_at (vend v) val w of
                Fault \<Rightarrow> Fault
              | Throw e w' \<Rightarrow> Throw e (v, w')
              | Ok _ w' \<Rightarrow> Ok () (v\<lparr>m_size := m_size v + 1\<rparr>, w'))
      else push_back_realloc push_back v val w)"

text \<open>
  The argument \<^verbatim>\<open>T const& val\<close> of \<^verbatim>\<open>insert\<close> is a reference: to a temporary that
  holds a value (\<open>Temporary\<close>), or to an object in a block, which may be an element
  of the container itself (\<open>Element\<close>). It is read, through \<open>deref\<close>, at the
  moment the code reads it; reading through a reference to no live object is a fault.
\<close>

datatype 'a cref = Temporary 'a | Element ptr

definition deref :: "'a cref \<Rightarrow> 'a world \<Rightarrow> 'a option" where
  "deref r w = (case r of Temporary x \<Rightarrow> Some x | Element p \<Rightarrow> load p w)"

text \<open>
  \<^verbatim>\<open>insert(pos, val)\<close>. \<open>insert_shift\<close> is the loop
  \<^verbatim>\<open>for (auto i = end() - 1; i != pos; --i) swap(*i, *(i - 1));\<close> a pointer that would
  step below its block is a fault.
\<close>

function insert_shift :: "ptr \<Rightarrow> ptr \<Rightarrow> 'a world \<Rightarrow> (unit, 'a world) res" where
  "insert_shift i pos w =
     (if i = pos then Ok () w
      else if snd i = 0 then Fault
      else case swap_at i (fst i, snd i - 1) w of
        Fault \<Rightarrow> Fault
      | Throw e w' \<Rightarrow> Throw e w'
      | Ok _ w' \<Rightarrow> insert_shift (fst i, snd i - 1) pos w')"
  by pat_completeness auto
termination
  by (relation "measure (\<lambda>(i, pos, w). snd i)") simp_all

definition insert_it ::
    "vec \<Rightarrow> ptr \<Rightarrow> 'a cref \<Rightarrow> 'a world \<Rightarrow> (ptr, vec \<times> 'a world) res option" where
  "insert_it v pos val w =
     (if m_size v = m_capacity v then
        (case new_buffer vector_ctor (increase_capacity v) w of
           Fault \<Rightarrow> Some Fault
         | Throw e (tmp, w1) \<Rightarrow>
            Some (case vector_dtor tmp w1 of None \<Rightarrow> Fault | Some w2 \<Rightarrow> Throw e (v, w2))
         | Ok _ (tmp, w1) \<Rightarrow>
            (case ptr_diff pos (vbegin v) of
               None \<Rightarrow> Some Fault
             | Some k \<Rightarrow>
                (case copy_construct_all (m_data tmp, 0) (m_data v, 0) k w1 of
                   Fault \<Rightarrow> Some Fault
                 | Throw e w2 \<Rightarrow>
                    Some (case vector_dtor tmp w2 of
                            None \<Rightarrow> Fault
                          | Some w3 \<Rightarrow> Throw e (v, w3))
                 | Ok _ w2 \<Rightarrow>
                    (case deref val w2 of
                       None \<Rightarrow> Some Fault
                     | Some x \<Rightarrow>
                        (case push_back (tmp\<lparr>m_size := k\<rparr>) x w2 of
                           None \<Rightarrow> None
                         | Some Fault \<Rightarrow> Some Fault
                         | Some (Throw e (tmp', w3)) \<Rightarrow>
                            Some (case vector_dtor tmp' w3 of
                                    None \<Rightarrow> Fault
                                  | Some w4 \<Rightarrow> Throw e (v, w4))
                         | Some (Ok _ (tmp', w3)) \<Rightarrow>
                            (case ptr_diff (vend v) pos of
                               None \<Rightarrow> Some Fault
                             | Some m \<Rightarrow>
                                (case copy_construct_all (vend tmp') pos m w3 of
                                   Fault \<Rightarrow> Some Fault
                                 | Throw e w4 \<Rightarrow>
                                    Some (case vector_dtor tmp' w4 of
                                            None \<Rightarrow> Fault
                                          | Some w5 \<Rightarrow> Throw e (v, w5))
                                 | Ok _ w4 \<Rightarrow>
                                    (case swap_vec v (tmp'\<lparr>m_size := m_size tmp' + m\<rparr>) of
                                       (v', old) \<Rightarrow>
                                         Some (case vector_dtor old w4 of
                                                 None \<Rightarrow> Fault
                                               | Some w5 \<Rightarrow>
                                                  Ok (vend (tmp\<lparr>m_size := k\<rparr>)) (v', w5))))))))))
      else
        (case load (back_ptr v) w of
           None \<Rightarrow> Some Fault
         | Some b \<Rightarrow>
            (case push_back v b w of
               None \<Rightarrow> None
             | Some Fault \<Rightarrow> Some Fault
             | Some (Throw e (v1, w1)) \<Rightarrow> Some (Throw e (v1, w1))
             | Some (Ok _ (v1, w1)) \<Rightarrow>
                Some (if snd (vend v1) = 0 then Fault
                      else case insert_shift (fst (vend v1), snd (vend v1) - 1) pos w1 of
                        Fault \<Rightarrow> Fault
                      | Throw e w2 \<Rightarrow> Throw e (v1, w2)
                      | Ok _ w2 \<Rightarrow>
                         (case deref val w2 of
                            None \<Rightarrow> Fault
                          | Some x \<Rightarrow>
                             (case assign_at pos x w2 of
                                Fault \<Rightarrow> Fault
                              | Throw e w3 \<Rightarrow> Throw e (v1, w3)
                              | Ok _ w3 \<Rightarrow> Ok pos (v1, w3)))))))"

text \<open>
  \<^verbatim>\<open>erase(first, last)\<close>. \<open>erase_shift\<close> is the loop
  \<^verbatim>\<open>while (last != end()) { swap(*first, *last); ++first; ++last; }\<close> and returns the two
  pointers it ends with; \<open>erase_destroy\<close> is
  \<^verbatim>\<open>while (first != last) { first->~T(); ++first; }\<close>. A pointer that has passed the
  one it is compared with can never meet it: that is a fault.
\<close>

function erase_shift :: "ptr \<Rightarrow> ptr \<Rightarrow> ptr \<Rightarrow> 'a world \<Rightarrow> (ptr \<times> ptr, 'a world) res" where
  "erase_shift first lst e w =
     (if lst = e then Ok (first, lst) w
      else if snd e \<le> snd lst then Fault
      else case swap_at first lst w of
        Fault \<Rightarrow> Fault
      | Throw ex w' \<Rightarrow> Throw ex w'
      | Ok _ w' \<Rightarrow> erase_shift (ptr_add first 1) (ptr_add lst 1) e w')"
  by pat_completeness auto
termination
  by (relation "measure (\<lambda>(first, lst, e, w). snd e - snd lst)") (simp_all add: ptr_add_def)

function erase_destroy :: "ptr \<Rightarrow> ptr \<Rightarrow> 'a world \<Rightarrow> 'a world option" where
  "erase_destroy first lst w =
     (if first = lst then Some w
      else if snd lst \<le> snd first then None
      else case destroy_at first w of
        None \<Rightarrow> None
      | Some w' \<Rightarrow> erase_destroy (ptr_add first 1) lst w')"
  by pat_completeness auto
termination
  by (relation "measure (\<lambda>(first, lst, w). snd lst - snd first)") (simp_all add: ptr_add_def)

definition erase :: "vec \<Rightarrow> ptr \<Rightarrow> ptr \<Rightarrow> 'a world \<Rightarrow> (ptr, vec \<times> 'a world) res" where
  "erase v first lst w =
     (case erase_shift first lst (vend v) w of
        Fault \<Rightarrow> Fault
      | Throw e w1 \<Rightarrow> Throw e (v, w1)
      | Ok (first', lst') w1 \<Rightarrow>
         (case ptr_diff first' (vbegin v) of
            None \<Rightarrow> Fault
          | Some n \<Rightarrow>
             (case erase_destroy first' lst' w1 of
                None \<Rightarrow> Fault
              | Some w2 \<Rightarrow> Ok first (v\<lparr>m_size := n\<rparr>, w2))))"

text \<open>\<^verbatim>\<open>erase(pos)\<close>\<close>

definition erase_at :: "vec \<Rightarrow> ptr \<Rightarrow> 'a world \<Rightarrow> (ptr, vec \<times> 'a world) res" where
  "erase_at v pos w = erase v pos (ptr_add pos 1) w"

text \<open>
  \<^verbatim>\<open>vector(vector const& other)\<close>. The result is the new container. The constructor
  delegates to \<^verbatim>\<open>vector()\<close>, so the object is complete before the body runs and its
  destructor runs when the body throws.
\<close>

definition vector_copy :: "vec \<Rightarrow> 'a world \<Rightarrow> (vec, 'a world) res" where
  "vector_copy other w =
     (case new_buffer vector_ctor (m_size other) w of
        Fault \<Rightarrow> Fault
      | Throw e (this, w1) \<Rightarrow>
         (case vector_dtor this w1 of None \<Rightarrow> Fault | Some w2 \<Rightarrow> Throw e w2)
      | Ok _ (this, w1) \<Rightarrow>
         (case copy_construct_all (m_data this, 0) (m_data other, 0) (m_size other) w1 of
            Fault \<Rightarrow> Fault
          | Throw e w2 \<Rightarrow>
             (case vector_dtor this w2 of None \<Rightarrow> Fault | Some w3 \<Rightarrow> Throw e w3)
          | Ok _ w2 \<Rightarrow> Ok (this\<lparr>m_size := m_size other\<rparr>) w2))"

text \<open>\<^verbatim>\<open>operator=(other)\<close>: copy, swap, and the copy's destructor takes the old state.\<close>

definition assign :: "vec \<Rightarrow> vec \<Rightarrow> 'a world \<Rightarrow> (unit, vec \<times> 'a world) res" where
  "assign this other w =
     (case vector_copy other w of
        Fault \<Rightarrow> Fault
      | Throw e w1 \<Rightarrow> Throw e (this, w1)
      | Ok copy w1 \<Rightarrow>
         (case swap_vec this copy of
            (this', old) \<Rightarrow>
              (case vector_dtor old w1 of
                 None \<Rightarrow> Fault
               | Some w2 \<Rightarrow> Ok () (this', w2))))"

section \<open>Observations and well-formed states\<close>

text \<open>The slots of a container's block, and the values of its live elements in order.\<close>

definition slots :: "vec \<Rightarrow> 'a world \<Rightarrow> 'a option list" where
  "slots v w = (case heap w (m_data v) of None \<Rightarrow> [] | Some b \<Rightarrow> b)"

definition elems :: "vec \<Rightarrow> 'a world \<Rightarrow> 'a list" where
  "elems v w = map the (take (unat (m_size v)) (slots v w))"

text \<open>
  A well-formed world: addresses from \<open>next_addr\<close> on are not allocated yet, and nothing
  is allocated at the null address.
\<close>

definition wfw :: "'a world \<Rightarrow> bool" where
  "wfw w = (0 < next_addr w \<and> heap w 0 = None \<and> (\<forall>a. next_addr w \<le> a \<longrightarrow> heap w a = None))"

text \<open>
  The number of slots of a block allocated for \<open>n\<close> elements: what fits into
  \<^verbatim>\<open>n * sizeof(T)\<close> bytes, the product taken in \<^verbatim>\<open>size_t\<close>. It is \<open>n\<close> unless the
  product wraps around.
\<close>

definition block_slots :: "size_t \<Rightarrow> nat" where
  "block_slots n = unat (n * sizeof_T) div unat sizeof_T"

text \<open>
  A well-formed container in a world: a null container is empty with capacity zero; any
  other owns an allocated block with the slots its capacity was allocated with, the size
  is at most the capacity and at most the number of slots, the first \<open>size\<close> slots are
  live and the others raw.
\<close>

definition wfv :: "vec \<Rightarrow> 'a world \<Rightarrow> bool" where
  "wfv v w =
     (if m_data v = 0 then m_size v = 0 \<and> m_capacity v = 0
      else m_data v < next_addr w \<and>
        (case heap w (m_data v) of
           None \<Rightarrow> False
         | Some b \<Rightarrow>
            length b = block_slots (m_capacity v) \<and> m_size v \<le> m_capacity v \<and>
            unat (m_size v) \<le> length b \<and>
            list_all (\<lambda>s. s \<noteq> None) (take (unat (m_size v)) b) \<and>
            list_all (\<lambda>s. s = None) (drop (unat (m_size v)) b)))"

section \<open>Programs over the public interface\<close>

text \<open>
  A configuration is the list of the containers alive in a program and the world. A step
  is one call of a public operation on one of them, ending normally or with an exception
  (\<open>final\<close> keeps the state of both), or a call of
  \<^verbatim>\<open>counted::set_throw_countdown\<close>. Positions are given as offsets from \<^verbatim>\<open>begin()\<close>
  and are inside \<^verbatim>\<open>[begin(), end()]\<close>, as the operations require. The value given to
  \<^verbatim>\<open>insert\<close> is a reference to a temporary or to an element.
\<close>

type_synonym 'a config = "vec list \<times> 'a world"

definition init :: "'a config" where
  "init = ([], \<lparr>heap = (\<lambda>a. None), next_addr = 1, throw_countdown = 0, instances = 0,
                dtor_log = []\<rparr>)"

fun final :: "('r, 's) res \<Rightarrow> 's option" where
  "final (Ok r s) = Some s"
| "final (Throw e s) = Some s"
| "final Fault = None"

datatype 'a call =
    Reserve size_t | ShrinkToFit | Clear | PushBack 'a | PopBack
  | Insert nat "'a cref" | Erase nat nat | EraseAt nat

fun run_call :: "'a call \<Rightarrow> vec \<Rightarrow> 'a world \<Rightarrow> (vec \<times> 'a world) option" where
  "run_call (Reserve n) v w = final (reserve v n w)"
| "run_call ShrinkToFit v w = final (shrink_to_fit v w)"
| "run_call Clear v w = final (clear v w)"
| "run_call (PushBack x) v w = Option.bind (push_back v x w) final"
| "run_call PopBack v w = final (pop_back v w)"
| "run_call (Insert k x) v w =
     (if k \<le> unat (m_size v) then Option.bind (insert_it v (ptr_add (vbegin v) k) x w) final
      else None)"
| "run_call (Erase i j) v w =
     (if i \<le> j \<and> j \<le> unat (m_size v)
      then final (erase v (ptr_add (vbegin v) i) (ptr_add (vbegin v) j) w)
      else None)"
| "run_call (EraseAt i) v w =
     (if i < unat (m_size v) then final (erase_at v (ptr_add (vbegin v) i) w) else None)"

inductive step :: "'a config \<Rightarrow> 'a config \<Rightarrow> bool" where
  construct: "step (vs, w) (vs @ [vector_ctor], w)"
| copy_construct:
    "i < length vs \<Longrightarrow> vector_copy (vs ! i) w = Ok v' w' \<Longrightarrow> step (vs, w) (vs @ [v'], w')"
| copy_construct_throws:
    "i < length vs \<Longrightarrow> vector_copy (vs ! i) w = Throw e w' \<Longrightarrow> step (vs, w) (vs, w')"
| destruct:
    "i < length vs \<Longrightarrow> vector_dtor (vs ! i) w = Some w' \<Longrightarrow>
     step (vs, w) (take i vs @ drop (Suc i) vs, w')"
| assignment:
    "i < length vs \<Longrightarrow> j < length vs \<Longrightarrow> final (assign (vs ! i) (vs ! j) w) = Some (v', w') \<Longrightarrow>
     step (vs, w) (vs[i := v'], w')"
| swapping:
    "i < length vs \<Longrightarrow> j < length vs \<Longrightarrow>
     step (vs, w) (vs[i := fst (swap_vec (vs ! i) (vs ! j)),
                      j := snd (swap_vec (vs ! i) (vs ! j))], w)"
| member: "i < length vs \<Longrightarrow> run_call c (vs ! i) w = Some (v', w') \<Longrightarrow> step (vs, w) (vs[i := v'], w')"
| set_throw_countdown: "step (vs, w) (vs, w\<lparr>throw_countdown := k\<rparr>)"

inductive reachable :: "'a config \<Rightarrow> bool" where
  start: "reachable init"
| after: "reachable c \<Longrightarrow> step c c' \<Longrightarrow> reachable c'"

section \<open>The element lifecycle helpers, step by step\<close>

text \<open>
  The loops are unfolded by hand; their defining equations are taken out of the simplifier.
\<close>

declare destroy_all_loop.simps [simp del] cca_try.simps [simp del] cca_catch.simps [simp del]
  insert_shift.simps [simp del] erase_shift.simps [simp del] erase_destroy.simps [simp del]

lemma size_t_suc: "i \<noteq> n \<Longrightarrow> unat i \<le> unat n \<Longrightarrow> unat (i + 1) = Suc (unat i)" for i n :: size_t
proof -
  assume a: "i \<noteq> n" "unat i \<le> unat n"
  then have "unat i < unat n" by (simp add: word_unat_eq_iff)
  moreover have "unat n < 2 ^ 64" using unsigned_less [of n, where 'a = nat] by simp
  ultimately have "unat i + unat (1 :: size_t) < 2 ^ LENGTH(64)" by simp
  then have "unat (i + 1) = unat i + unat (1 :: size_t)" by (simp only: unat_add_lem)
  then show ?thesis by simp
qed

lemma size_t_pred: "i \<noteq> 0 \<Longrightarrow> unat (i - 1) = unat i - 1" for i :: size_t
  by (rule unat_minus_one)

definition blit :: "'a option list \<Rightarrow> nat \<Rightarrow> 'a option list \<Rightarrow> nat \<Rightarrow> nat \<Rightarrow> nat \<Rightarrow> 'a option list" where
  "blit db doff sb soff lo hi =
     map (\<lambda>k. if doff + lo \<le> k \<and> k < doff + hi then sb ! (soff + (k - doff)) else db ! k) [0..<length db]"

definition wipe :: "'a option list \<Rightarrow> nat \<Rightarrow> nat \<Rightarrow> 'a option list" where
  "wipe db lo hi = map (\<lambda>k. if lo \<le> k \<and> k < hi then None else db ! k) [0..<length db]"

lemma length_blit [simp]: "length (blit db doff sb soff lo hi) = length db"
  by (simp add: blit_def)

lemma nth_blit [simp]:
  "k < length db \<Longrightarrow> blit db doff sb soff lo hi ! k =
     (if doff + lo \<le> k \<and> k < doff + hi then sb ! (soff + (k - doff)) else db ! k)"
  by (simp add: blit_def)

lemma blit_none [simp]: "hi \<le> lo \<Longrightarrow> blit db doff sb soff lo hi = db"
  by (rule nth_equalityI) auto

lemma blit_step:
  "doff + lo < length db \<Longrightarrow> lo < hi \<Longrightarrow>
   blit (db[doff + lo := sb ! (soff + lo)]) doff sb soff (Suc lo) hi = blit db doff sb soff lo hi"
  by (rule nth_equalityI) (auto simp: nth_list_update)

lemma length_wipe [simp]: "length (wipe db lo hi) = length db"
  by (simp add: wipe_def)

lemma nth_wipe [simp]:
  "k < length db \<Longrightarrow> wipe db lo hi ! k = (if lo \<le> k \<and> k < hi then None else db ! k)"
  by (simp add: wipe_def)

lemma wipe_none [simp]: "hi \<le> lo \<Longrightarrow> wipe db lo hi = db"
  by (rule nth_equalityI) auto

lemma construct_at_eq:
  "heap w d = Some db \<Longrightarrow>
   construct_at (d, k) x w =
     (if \<not> k < length db then Fault
      else if throw_countdown w = 1 then Throw CopyFailed (w\<lparr>throw_countdown := 0\<rparr>)
      else Ok () (w\<lparr>heap := (heap w)(d \<mapsto> db[k := Some x]),
                    throw_countdown := (if throw_countdown w = 0 then 0 else throw_countdown w - 1),
                    instances := instances w + 1\<rparr>))"
  by (auto simp: construct_at_def in_bounds_def counted_copy_ctor_def counted_copy_def store_def)

lemma load_eq:
  "heap w s = Some sb \<Longrightarrow> load (s, k) w = (if k < length sb then sb ! k else None)"
  by (simp add: load_def)

lemma destroy_at_eq:
  "heap w d = Some db \<Longrightarrow>
   destroy_at (d, k) w =
     (if k < length db \<and> db ! k \<noteq> None
      then Some (w\<lparr>heap := (heap w)(d \<mapsto> db[k := None]), instances := instances w - 1,
                   dtor_log := dtor_log w @ [(d, k)]\<rparr>)
      else None)"
  by (auto simp: destroy_at_def load_def store_def counted_dtor_def split: option.splits)

lemma all_single: "(\<forall>k. lo \<le> k \<and> k < Suc lo \<longrightarrow> P k) = P lo"
proof -
  have "(lo \<le> k \<and> k < Suc lo) = (k = lo)" for k by arith
  then show ?thesis by simp
qed

lemma all_from_Suc:
  "lo < hi \<Longrightarrow> (\<forall>k. lo \<le> k \<and> k < hi \<longrightarrow> P k) = (P lo \<and> (\<forall>k. Suc lo \<le> k \<and> k < hi \<longrightarrow> P k))"
proof -
  assume "lo < hi"
  then have "(lo \<le> k \<and> k < hi) = (k = lo \<or> (Suc lo \<le> k \<and> k < hi))" for k by arith
  then show ?thesis by auto
qed

definition cca_pre :: "'a option list \<Rightarrow> nat \<Rightarrow> 'a option list \<Rightarrow> nat \<Rightarrow> nat \<Rightarrow> nat \<Rightarrow> bool" where
  "cca_pre db doff sb soff lo hi =
     (\<forall>k. lo \<le> k \<and> k < hi \<longrightarrow> doff + k < length db \<and> soff + k < length sb \<and> sb ! (soff + k) \<noteq> None)"

lemma cca_try_spec:
  assumes "heap w d = Some db" "heap w s = Some sb" "d \<noteq> s" "unat i \<le> unat n"
  shows "case cca_try (d, doff) (s, soff) n i w of
      Fault \<Rightarrow> \<not> cca_pre db doff sb soff (unat i) (unat n)
    | Ok _ (j, w') \<Rightarrow> j = n \<and> cca_pre db doff sb soff (unat i) (unat n) \<and>
         (throw_countdown w = 0 \<or> unat n - unat i < unat (throw_countdown w)) \<and>
         w' = w\<lparr>heap := (heap w)(d \<mapsto> blit db doff sb soff (unat i) (unat n)),
                throw_countdown := (if throw_countdown w = 0 then 0 else throw_countdown w - (n - i)),
                instances := instances w + (n - i)\<rparr>
    | Throw e (j, w') \<Rightarrow> e = CopyFailed \<and> unat i \<le> unat j \<and> unat j < unat n \<and>
         unat (throw_countdown w) = Suc (unat j - unat i) \<and>
         cca_pre db doff sb soff (unat i) (Suc (unat j)) \<and>
         w' = w\<lparr>heap := (heap w)(d \<mapsto> blit db doff sb soff (unat i) (unat j)),
                throw_countdown := 0,
                instances := instances w + (j - i)\<rparr>"
  using assms
proof (induction "unat n - unat i" arbitrary: i w db)
  case 0
  then have "i = n" by (simp add: word_unat_eq_iff)
  then show ?case using 0 by (auto simp: cca_try.simps cca_pre_def fun_upd_idem unat_gt_0)
next
  case (Suc m)
  then have ne: "i \<noteq> n" and lt: "unat i < unat n" by auto
  have suc: "unat (i + 1) = Suc (unat i)" using size_t_suc [OF ne] Suc.prems by simp
  show ?case
  proof (cases "soff + unat i < length sb \<and> sb ! (soff + unat i) \<noteq> None \<and> doff + unat i < length db")
    case False
    then have "\<not> cca_pre db doff sb soff (unat i) (unat n)"
      using lt by (auto simp: cca_pre_def)
    moreover have "cca_try (d, doff) (s, soff) n i w = Fault"
      using False ne Suc.prems
      by (subst cca_try.simps) (auto simp: ptr_add_def load_eq construct_at_eq split: option.splits)
    ultimately show ?thesis by simp
  next
    case True
    then obtain x where x: "sb ! (soff + unat i) = Some x" by auto
    show ?thesis
    proof (cases "throw_countdown w = 1")
      case tc1: True
      have "cca_try (d, doff) (s, soff) n i w = Throw CopyFailed (i, w\<lparr>throw_countdown := 0\<rparr>)"
        using True ne Suc.prems x tc1
        by (subst cca_try.simps) (simp add: ptr_add_def load_eq construct_at_eq)
      moreover have "cca_pre db doff sb soff (unat i) (Suc (unat i))"
        unfolding cca_pre_def all_single using True by simp
      ultimately show ?thesis using tc1 lt Suc.prems
        by (simp add: fun_upd_idem)
    next
      case tcn: False
      define db1 where "db1 = db[doff + unat i := Some x]"
      define w1 where "w1 = w\<lparr>heap := (heap w)(d \<mapsto> db1),
                    throw_countdown := (if throw_countdown w = 0 then 0 else throw_countdown w - 1),
                    instances := instances w + 1\<rparr>"
      have step: "cca_try (d, doff) (s, soff) n i w = cca_try (d, doff) (s, soff) n (i + 1) w1"
        using True ne Suc.prems x tcn
        by (subst cca_try.simps) (simp add: ptr_add_def load_eq construct_at_eq w1_def db1_def)
      have m: "m = unat n - unat (i + 1)" using Suc.hyps(2) suc by simp
      have h1: "heap w1 d = Some db1" "heap w1 s = Some sb"
        using Suc.prems by (simp_all add: w1_def)
      have le1: "unat (i + 1) \<le> unat n" using suc lt by simp
      note IH = Suc.hyps(1) [OF m h1 \<open>d \<noteq> s\<close> le1]
      have pre_eq: "cca_pre db1 doff sb soff (Suc (unat i)) hi = cca_pre db doff sb soff (Suc (unat i)) hi" for hi
        by (simp add: cca_pre_def db1_def)
      have pre_ext: "cca_pre db doff sb soff (unat i) hi = cca_pre db doff sb soff (Suc (unat i)) hi" for hi
        using True by (auto simp: cca_pre_def le_Suc_eq Suc_le_eq) (metis le_neq_implies_less Suc_leI)+
      have bl: "unat i < hi \<Longrightarrow> blit db1 doff sb soff (Suc (unat i)) hi = blit db doff sb soff (unat i) hi" for hi
        using blit_step [of doff "unat i" db hi sb soff] True x by (simp add: db1_def)
      have tcw1: "throw_countdown w1 = (if throw_countdown w = 0 then 0 else throw_countdown w - 1)"
        by (simp add: w1_def)
      have tc_unat: "throw_countdown w \<noteq> 0 \<Longrightarrow> unat (throw_countdown w - 1) = unat (throw_countdown w) - 1"
        by (rule unat_minus_one)
      have tc_ne: "throw_countdown w \<noteq> 0 \<Longrightarrow> throw_countdown w - 1 \<noteq> 0" using tcn by simp
      show ?thesis
      proof (cases "cca_try (d, doff) (s, soff) n (i + 1) w1")
        case Fault
        then show ?thesis using IH step suc pre_eq pre_ext by simp
      next
        case (Ok u jw)
        obtain j w' where jw: "jw = (j, w')" by (cases jw)
        have "j = n" and p: "cca_pre db doff sb soff (unat i) (unat n)"
          and c: "throw_countdown w1 = 0 \<or> unat n - unat (i + 1) < unat (throw_countdown w1)"
          and w': "w' = w1\<lparr>heap := (heap w1)(d \<mapsto> blit db1 doff sb soff (unat (i + 1)) (unat n)),
                throw_countdown := (if throw_countdown w1 = 0 then 0 else throw_countdown w1 - (n - (i + 1))),
                instances := instances w1 + (n - (i + 1))\<rparr>"
          using IH Ok jw suc pre_eq pre_ext by simp_all
        have c': "throw_countdown w = 0 \<or> unat n - unat i < unat (throw_countdown w)"
          using c tcw1 suc tc_unat lt tc_ne by (auto split: if_splits)
        have "w' = w\<lparr>heap := (heap w)(d \<mapsto> blit db doff sb soff (unat i) (unat n)),
                throw_countdown := (if throw_countdown w = 0 then 0 else throw_countdown w - (n - i)),
                instances := instances w + (n - i)\<rparr>"
          using w' bl [OF lt] suc tc_ne by (simp add: w1_def)
        then show ?thesis using step Ok jw \<open>j = n\<close> p c' by simp
      next
        case (Throw e jw)
        obtain j w' where jw: "jw = (j, w')" by (cases jw)
        have e: "e = CopyFailed" and ij: "unat (i + 1) \<le> unat j" and jn: "unat j < unat n"
          and c: "unat (throw_countdown w1) = Suc (unat j - unat (i + 1))"
          and p: "cca_pre db doff sb soff (unat i) (Suc (unat j))"
          and w': "w' = w1\<lparr>heap := (heap w1)(d \<mapsto> blit db1 doff sb soff (unat (i + 1)) (unat j)),
                throw_countdown := 0, instances := instances w1 + (j - (i + 1))\<rparr>"
          using IH Throw jw suc pre_eq pre_ext by simp_all
        have tcnz: "throw_countdown w \<noteq> 0" using c tcw1 by (auto split: if_splits)
        have c': "unat (throw_countdown w) = Suc (unat j - unat i)"
          using c tcw1 suc tc_unat [OF tcnz] tcnz ij by (simp split: if_splits)
        have "blit db1 doff sb soff (Suc (unat i)) (unat j) = blit db doff sb soff (unat i) (unat j)"
        proof (cases "unat i < unat j")
          case True then show ?thesis by (rule bl)
        next
          case False
          then show ?thesis using ij suc by simp
        qed
        then have "w' = w\<lparr>heap := (heap w)(d \<mapsto> blit db doff sb soff (unat i) (unat j)),
                throw_countdown := 0, instances := instances w + (j - i)\<rparr>"
          using w' suc by (simp add: w1_def)
        moreover have "unat i \<le> unat j" using ij suc by simp
        ultimately show ?thesis using step Throw jw e jn c' p by simp
      qed
    qed
  qed
qed

lemma cca_catch_spec:
  assumes "heap w d = Some db"
  shows "case cca_catch (d, doff) j w of
      None \<Rightarrow> \<not> (\<forall>k<unat j. doff + k < length db \<and> db ! (doff + k) \<noteq> None)
    | Some w' \<Rightarrow> (\<forall>k<unat j. doff + k < length db \<and> db ! (doff + k) \<noteq> None) \<and>
        w' = w\<lparr>heap := (heap w)(d \<mapsto> wipe db doff (doff + unat j)),
               instances := instances w - j,
               dtor_log := dtor_log w @ rev (map (\<lambda>k. (d, doff + k)) [0..<unat j])\<rparr>"
  using assms
proof (induction "unat j" arbitrary: j w db)
  case 0
  then have "j = 0" by (simp add: unat_eq_zero)
  then show ?case using 0 by (auto simp: cca_catch.simps fun_upd_idem)
next
  case (Suc m)
  then have nz: "j \<noteq> 0" by auto
  have pred: "unat (j - 1) = m" using Suc.hyps(2) unat_minus_one [OF nz] by simp
  show ?case
  proof (cases "doff + m < length db \<and> db ! (doff + m) \<noteq> None")
    case False
    then have "cca_catch (d, doff) j w = None"
      using nz Suc.prems pred
      by (subst cca_catch.simps) (auto simp: ptr_add_def destroy_at_eq)
    moreover have "\<not> (\<forall>k<unat j. doff + k < length db \<and> db ! (doff + k) \<noteq> None)"
      using False Suc.hyps(2) by (metis lessI)
    ultimately show ?thesis by simp
  next
    case True
    define db1 where "db1 = db[doff + m := None]"
    define w1 where "w1 = w\<lparr>heap := (heap w)(d \<mapsto> db1), instances := instances w - 1,
                   dtor_log := dtor_log w @ [(d, doff + m)]\<rparr>"
    have step: "cca_catch (d, doff) j w = cca_catch (d, doff) (j - 1) w1"
      using nz Suc.prems pred True
      by (subst cca_catch.simps) (auto simp: ptr_add_def destroy_at_eq w1_def db1_def)
    have h1: "heap w1 d = Some db1" by (simp add: w1_def)
    note IH = Suc.hyps(1) [OF pred [symmetric] h1]
    have all_eq: "(\<forall>k<unat j. doff + k < length db \<and> db ! (doff + k) \<noteq> None)
        = (\<forall>k<m. doff + k < length db1 \<and> db1 ! (doff + k) \<noteq> None)"
      using True Suc.hyps(2) [symmetric] by (auto simp: db1_def nth_list_update less_Suc_eq)
    have wp: "wipe db1 doff (doff + m) = wipe db doff (doff + Suc m)"
      using True by (intro nth_equalityI) (auto simp: db1_def nth_list_update)
    show ?thesis
    proof (cases "cca_catch (d, doff) (j - 1) w1")
      case None
      then show ?thesis using IH step all_eq pred by simp
    next
      case (Some w')
      then have "w' = w1\<lparr>heap := (heap w1)(d \<mapsto> wipe db1 doff (doff + m)),
               instances := instances w1 - (j - 1),
               dtor_log := dtor_log w1 @ rev (map (\<lambda>k. (d, doff + k)) [0..<m])\<rparr>"
        and a: "\<forall>k<m. doff + k < length db1 \<and> db1 ! (doff + k) \<noteq> None"
        using IH pred by simp_all
      then have "w' = w\<lparr>heap := (heap w)(d \<mapsto> wipe db doff (doff + unat j)),
               instances := instances w - j,
               dtor_log := dtor_log w @ rev (map (\<lambda>k. (d, doff + k)) [0..<unat j])\<rparr>"
        using wp Suc.hyps(2) [symmetric] by (simp add: w1_def)
      then show ?thesis using step Some a all_eq by simp
    qed
  qed
qed

lemma destroy_all_loop_spec:
  assumes "heap w d = Some db" "unat i \<le> unat n"
  shows "case destroy_all_loop (d, doff) i n w of
      None \<Rightarrow> \<not> (\<forall>k. unat i \<le> k \<and> k < unat n \<longrightarrow> doff + k < length db \<and> db ! (doff + k) \<noteq> None)
    | Some w' \<Rightarrow> (\<forall>k. unat i \<le> k \<and> k < unat n \<longrightarrow> doff + k < length db \<and> db ! (doff + k) \<noteq> None) \<and>
        w' = w\<lparr>heap := (heap w)(d \<mapsto> wipe db (doff + unat i) (doff + unat n)),
               instances := instances w - (n - i),
               dtor_log := dtor_log w @ map (\<lambda>k. (d, doff + k)) [unat i..<unat n]\<rparr>"
  using assms
proof (induction "unat n - unat i" arbitrary: i w db)
  case 0
  then have "i = n" by (simp add: word_unat_eq_iff)
  then show ?case using 0 by (auto simp: destroy_all_loop.simps fun_upd_idem)
next
  case (Suc m)
  then have ne: "i \<noteq> n" and lt: "unat i < unat n" by auto
  have suc: "unat (i + 1) = Suc (unat i)" using size_t_suc [OF ne] Suc.prems by simp
  show ?case
  proof (cases "doff + unat i < length db \<and> db ! (doff + unat i) \<noteq> None")
    case False
    then have "destroy_all_loop (d, doff) i n w = None"
      using ne Suc.prems
      by (subst destroy_all_loop.simps) (auto simp: ptr_add_def destroy_at_eq)
    moreover have "\<not> (\<forall>k. unat i \<le> k \<and> k < unat n \<longrightarrow> doff + k < length db \<and> db ! (doff + k) \<noteq> None)"
      using False lt by (metis order_refl)
    ultimately show ?thesis by simp
  next
    case True
    define db1 where "db1 = db[doff + unat i := None]"
    define w1 where "w1 = w\<lparr>heap := (heap w)(d \<mapsto> db1), instances := instances w - 1,
                   dtor_log := dtor_log w @ [(d, doff + unat i)]\<rparr>"
    have step: "destroy_all_loop (d, doff) i n w = destroy_all_loop (d, doff) (i + 1) n w1"
      using ne Suc.prems True
      by (subst destroy_all_loop.simps) (auto simp: ptr_add_def destroy_at_eq w1_def db1_def)
    have h1: "heap w1 d = Some db1" by (simp add: w1_def)
    have m: "m = unat n - unat (i + 1)" using Suc.hyps(2) suc by simp
    have le1: "unat (i + 1) \<le> unat n" using suc lt by simp
    note IH = Suc.hyps(1) [OF m h1 le1]
    have all_eq: "(\<forall>k. unat i \<le> k \<and> k < unat n \<longrightarrow> doff + k < length db \<and> db ! (doff + k) \<noteq> None)
        = (\<forall>k. Suc (unat i) \<le> k \<and> k < unat n \<longrightarrow> doff + k < length db1 \<and> db1 ! (doff + k) \<noteq> None)"
      unfolding all_from_Suc [OF lt] using True by (auto simp: db1_def nth_list_update)
    have wp: "wipe db1 (doff + Suc (unat i)) (doff + unat n) = wipe db (doff + unat i) (doff + unat n)"
      using True lt by (intro nth_equalityI) (auto simp: db1_def nth_list_update)
    have upt: "[unat i..<unat n] = unat i # [Suc (unat i)..<unat n]"
      using lt by (simp add: upt_conv_Cons)
    show ?thesis
    proof (cases "destroy_all_loop (d, doff) (i + 1) n w1")
      case None
      then show ?thesis using IH step all_eq suc by simp
    next
      case (Some w')
      then have "w' = w1\<lparr>heap := (heap w1)(d \<mapsto> wipe db1 (doff + unat (i + 1)) (doff + unat n)),
               instances := instances w1 - (n - (i + 1)),
               dtor_log := dtor_log w1 @ map (\<lambda>k. (d, doff + k)) [unat (i + 1)..<unat n]\<rparr>"
        and a: "\<forall>k. unat (i + 1) \<le> k \<and> k < unat n \<longrightarrow> doff + k < length db1 \<and> db1 ! (doff + k) \<noteq> None"
        using IH by simp_all
      then have "w' = w\<lparr>heap := (heap w)(d \<mapsto> wipe db (doff + unat i) (doff + unat n)),
               instances := instances w - (n - i),
               dtor_log := dtor_log w @ map (\<lambda>k. (d, doff + k)) [unat i..<unat n]\<rparr>"
        using wp suc upt by (simp add: w1_def)
      then show ?thesis using step Some a all_eq suc by simp
    qed
  qed
qed

lemma cca_zero [simp]: "copy_construct_all dst src 0 w = Ok () w"
  by (simp add: copy_construct_all_def cca_try.simps)

lemma destroy_all_zero [simp]: "destroy_all d 0 w = Some w"
  by (simp add: destroy_all_def destroy_all_loop.simps)

definition raw_from :: "'a option list \<Rightarrow> nat \<Rightarrow> nat \<Rightarrow> bool" where
  "raw_from db lo hi = (\<forall>k. lo \<le> k \<and> k < hi \<and> k < length db \<longrightarrow> db ! k = None)"

lemma wipe_blit_raw:
  "raw_from db doff (doff + n) \<Longrightarrow> hi \<le> n \<Longrightarrow>
   wipe (blit db doff sb soff 0 hi) doff (doff + hi) = db"
  by (rule nth_equalityI) (auto simp: raw_from_def)

lemma cca_cases [consumes 4, case_names fault throw ok]:
  assumes "heap w d = Some db" "heap w s = Some sb" "d \<noteq> s" "raw_from db doff (doff + unat n)"
  obtains
    (fault) "copy_construct_all (d, doff) (s, soff) n w = Fault"
      "\<not> cca_pre db doff sb soff 0 (unat n)"
  | (throw) w' where "copy_construct_all (d, doff) (s, soff) n w = Throw CopyFailed w'"
      "heap w' = heap w" "next_addr w' = next_addr w" "throw_countdown w' = 0"
      "0 < unat (throw_countdown w)" "unat (throw_countdown w) \<le> unat n"
      "dtor_log w' = dtor_log w @ rev (map (\<lambda>k. (d, doff + k)) [0..<unat (throw_countdown w) - 1])"
      "cca_pre db doff sb soff 0 (unat (throw_countdown w))"
  | (ok) w' where "copy_construct_all (d, doff) (s, soff) n w = Ok () w'"
      "heap w' = (heap w)(d \<mapsto> blit db doff sb soff 0 (unat n))"
      "next_addr w' = next_addr w"
      "throw_countdown w' = (if throw_countdown w = 0 then 0 else throw_countdown w - n)"
      "dtor_log w' = dtor_log w"
      "cca_pre db doff sb soff 0 (unat n)"
      "throw_countdown w = 0 \<or> unat n < unat (throw_countdown w)"
proof -
  have z: "unat (0 :: size_t) \<le> unat n" by simp
  note spec = cca_try_spec [OF assms(1,2,3) z, where doff = doff and soff = soff]
  show thesis
  proof (cases "cca_try (d, doff) (s, soff) n 0 w")
    case Fault
    then have "copy_construct_all (d, doff) (s, soff) n w = Fault"
      by (simp add: copy_construct_all_def)
    then show thesis using fault spec Fault by simp
  next
    case (Ok u jw)
    obtain j w' where jw: "jw = (j, w')" by (cases jw)
    have c: "copy_construct_all (d, doff) (s, soff) n w = Ok () w'"
      using Ok jw by (simp add: copy_construct_all_def)
    show thesis
      by (rule ok [OF c]) (use spec Ok jw in \<open>simp_all\<close>)
  next
    case (Throw e jw)
    obtain j w1 where jw: "jw = (j, w1)" by (cases jw)
    have e: "e = CopyFailed" and jn: "unat j < unat n"
      and tc: "unat (throw_countdown w) = Suc (unat j)"
      and pre: "cca_pre db doff sb soff 0 (Suc (unat j))"
      and w1: "w1 = w\<lparr>heap := (heap w)(d \<mapsto> blit db doff sb soff 0 (unat j)),
              throw_countdown := 0, instances := instances w + j\<rparr>"
      using spec Throw jw by simp_all
    have h1: "heap w1 d = Some (blit db doff sb soff 0 (unat j))" by (simp add: w1)
    have live: "\<forall>k<unat j. doff + k < length (blit db doff sb soff 0 (unat j)) \<and>
        blit db doff sb soff 0 (unat j) ! (doff + k) \<noteq> None"
      using pre by (auto simp: cca_pre_def)
    obtain w' where w': "cca_catch (d, doff) j w1 = Some w'"
      and w'eq: "w' = w1\<lparr>heap := (heap w1)(d \<mapsto> wipe (blit db doff sb soff 0 (unat j)) doff (doff + unat j)),
               instances := instances w1 - j,
               dtor_log := dtor_log w1 @ rev (map (\<lambda>k. (d, doff + k)) [0..<unat j])\<rparr>"
      using cca_catch_spec [OF h1, where doff = doff and j = j] live by (cases "cca_catch (d, doff) j w1") auto
    have c: "copy_construct_all (d, doff) (s, soff) n w = Throw CopyFailed w'"
      using Throw jw w' e by (simp add: copy_construct_all_def)
    have hp: "heap w' = heap w"
      using assms(1) jn by (simp add: w'eq w1 wipe_blit_raw [OF assms(4)] fun_upd_idem)
    show thesis
      by (rule throw [OF c hp]) (use tc jn pre in \<open>simp_all add: w'eq w1\<close>)
  qed
qed

lemma vector_dtor_null [simp]: "vector_dtor \<lparr>m_data = 0, m_size = 0, m_capacity = c\<rparr> w = Some w"
  by (simp add: vector_dtor_def operator_delete_def)

lemma vector_dtor_block:
  assumes "heap w d = Some b" "d \<noteq> 0" "\<forall>k<unat n. k < length b \<and> b ! k \<noteq> None"
  obtains w' where "vector_dtor \<lparr>m_data = d, m_size = n, m_capacity = c\<rparr> w = Some w'"
    "heap w' = (heap w)(d := None)" "next_addr w' = next_addr w"
    "throw_countdown w' = throw_countdown w"
proof -
  have z: "unat (0 :: size_t) \<le> unat n" by simp
  obtain w1 where w1: "destroy_all_loop (d, 0) 0 n w = Some w1"
    and w1eq: "w1 = w\<lparr>heap := (heap w)(d \<mapsto> wipe b (0 + unat (0::size_t)) (0 + unat n)),
               instances := instances w - (n - 0),
               dtor_log := dtor_log w @ map (\<lambda>k. (d, 0 + k)) [unat (0::size_t)..<unat n]\<rparr>"
    using destroy_all_loop_spec [OF assms(1) z, where doff = 0] assms(3)
    by (cases "destroy_all_loop (d, 0) 0 n w") auto
  have "vector_dtor \<lparr>m_data = d, m_size = n, m_capacity = c\<rparr> w
      = Some (w1\<lparr>heap := (heap w1)(d := None)\<rparr>)"
    using w1 assms(2) by (simp add: vector_dtor_def destroy_all_def operator_delete_def w1eq)
  then show thesis
    by (rule that) (simp_all add: w1eq)
qed

lemma block_slots_eq: "block_slots n = unat n mod 2 ^ 61"
proof -
  have "unat (n * 8) = unat n * 8 mod (8 * 2 ^ 61)" by (simp add: unat_word_ariths)
  also have "\<dots> = 8 * (unat n mod 2 ^ 61)" by (simp add: mult.commute mult_mod_right)
  finally show ?thesis by (simp add: block_slots_def sizeof_T_def)
qed

lemma block_slots_le: "block_slots n \<le> unat n"
  by (simp add: block_slots_eq)

lemma block_slots_lt: "block_slots n < 2 ^ 61"
  by (simp add: block_slots_eq)

lemma block_slots_small: "unat n < 2 ^ 61 \<Longrightarrow> block_slots n = unat n"
  by (simp add: block_slots_eq)

lemma operator_new_slots:
  "operator_new (n * sizeof_T) w =
     (next_addr w,
      w\<lparr>heap := (heap w)(next_addr w \<mapsto> replicate (block_slots n) None),
        next_addr := next_addr w + 1\<rparr>)"
  by (simp add: operator_new_def block_slots_def)

lemma wfv_block:
  assumes "wfv v w" "m_data v \<noteq> 0"
  obtains b where "heap w (m_data v) = Some b" "length b = block_slots (m_capacity v)"
    "unat (m_size v) \<le> length b" "m_data v < next_addr w"
    "\<forall>k<length b. (b ! k \<noteq> None) = (k < unat (m_size v))" "slots v w = b"
    "unat (m_size v) \<le> unat (m_capacity v)"
proof -
  from assms obtain b where b: "heap w (m_data v) = Some b" "length b = block_slots (m_capacity v)"
    "unat (m_size v) \<le> length b" "m_data v < next_addr w"
    "list_all (\<lambda>s. s \<noteq> None) (take (unat (m_size v)) b)"
    "list_all (\<lambda>s. s = None) (drop (unat (m_size v)) b)" "m_size v \<le> m_capacity v"
    by (auto simp: wfv_def split: option.splits)
  have le: "unat (m_size v) \<le> unat (m_capacity v)" using b(7) by (simp add: word_le_nat_alt)
  have "\<forall>k<length b. (b ! k \<noteq> None) = (k < unat (m_size v))"
  proof (intro allI impI)
    fix k assume k: "k < length b"
    show "(b ! k \<noteq> None) = (k < unat (m_size v))"
    proof (cases "k < unat (m_size v)")
      case True
      then have "take (unat (m_size v)) b ! k \<noteq> None"
        using b(5) k by (simp add: list_all_length)
      then show ?thesis using True by simp
    next
      case False
      then have "k - unat (m_size v) < length b - unat (m_size v)" using k by simp
      then have "b ! (unat (m_size v) + (k - unat (m_size v))) = None"
        using b(6) by (simp add: list_all_length)
      then show ?thesis using False k by simp
    qed
  qed
  then show thesis using that b le by (simp add: slots_def)
qed

lemma wfvI:
  assumes "heap w (m_data v) = Some b" "length b = block_slots (m_capacity v)"
    "unat (m_size v) \<le> length b" "m_data v < next_addr w" "m_data v \<noteq> 0"
    "\<forall>k<length b. (b ! k \<noteq> None) = (k < unat (m_size v))"
  shows "wfv v w"
proof -
  have "unat (m_size v) \<le> unat (m_capacity v)"
    using assms(2,3) block_slots_le [of "m_capacity v"] by simp
  then have le: "m_size v \<le> m_capacity v" by (simp add: word_le_nat_alt)
  have "list_all (\<lambda>s. s \<noteq> None) (take (unat (m_size v)) b)"
    using assms by (simp add: list_all_length)
  moreover have "b ! (unat (m_size v) + n) = None" if "n < length b - unat (m_size v)" for n
    using assms(6) [rule_format, of "unat (m_size v) + n"] that by simp
  then have "list_all (\<lambda>s. s = None) (drop (unat (m_size v)) b)"
    by (simp add: list_all_length)
  ultimately show ?thesis using assms le by (simp add: wfv_def)
qed

lemma wfv_null: "wfv v w \<Longrightarrow> m_data v = 0 \<Longrightarrow> m_size v = 0 \<and> m_capacity v = 0"
  by (simp add: wfv_def)

lemma wfv_dtor:
  assumes "wfw w" "wfv v w"
  obtains w' where "vector_dtor v w = Some w'"
    "heap w' = (heap w)(m_data v := None)" "next_addr w' = next_addr w"
    "throw_countdown w' = throw_countdown w"
proof (cases "m_data v = 0")
  case True
  then have "v = \<lparr>m_data = 0, m_size = 0, m_capacity = 0\<rparr>"
    using wfv_null [OF assms(2)] by (cases v) simp
  moreover have "(heap w)(0 := None) = heap w" using assms(1) by (simp add: wfw_def fun_upd_idem)
  ultimately show ?thesis using that [of w] True by simp
next
  case False
  from wfv_block [OF assms(2) False] obtain b where b: "heap w (m_data v) = Some b"
    "length b = block_slots (m_capacity v)" "unat (m_size v) \<le> length b"
    "\<forall>k<length b. (b ! k \<noteq> None) = (k < unat (m_size v))" by blast
  have live: "\<forall>k<unat (m_size v). k < length b \<and> b ! k \<noteq> None" using b by auto
  from vector_dtor_block [OF b(1) False live, of "m_capacity v"]
  obtain w' where "vector_dtor \<lparr>m_data = m_data v, m_size = m_size v, m_capacity = m_capacity v\<rparr> w = Some w'"
    "heap w' = (heap w)(m_data v := None)" "next_addr w' = next_addr w"
    "throw_countdown w' = throw_countdown w" by blast
  moreover have "\<lparr>m_data = m_data v, m_size = m_size v, m_capacity = m_capacity v\<rparr> = v"
    by (cases v) simp
  ultimately show ?thesis using that [of w'] by simp
qed

definition fresh :: "size_t \<Rightarrow> 'a world \<Rightarrow> 'a world" where
  "fresh nc w = w\<lparr>heap := (heap w)(next_addr w \<mapsto> replicate (block_slots nc) None),
                  next_addr := Suc (next_addr w)\<rparr>"

lemma operator_new_eq: "operator_new (nc * sizeof_T) w = (next_addr w, fresh nc w)"
  by (simp add: operator_new_slots fresh_def)

lemma fresh_simps [simp]:
  "heap (fresh nc w) = (heap w)(next_addr w \<mapsto> replicate (block_slots nc) None)"
  "next_addr (fresh nc w) = Suc (next_addr w)"
  "throw_countdown (fresh nc w) = throw_countdown w"
  "dtor_log (fresh nc w) = dtor_log w"
  by (simp_all add: fresh_def)

lemma new_buffer_fresh:
  "new_buffer vector_ctor nc w =
     Ok () (\<lparr>m_data = next_addr w, m_size = 0, m_capacity = nc\<rparr>, fresh nc w)"
  by (simp add: new_buffer_def vector_ctor_def operator_new_eq swap_vec_def)

lemma wfv_slots_all:
  assumes "wfw w" "wfv v w"
  shows "unat (m_size v) \<le> length (slots v w) \<and> (\<forall>k<unat (m_size v). slots v w ! k \<noteq> None) \<and>
        m_data v < next_addr w \<and> unat (m_size v) \<le> unat (m_capacity v)"
proof (cases "m_data v = 0")
  case True
  then show ?thesis
    using wfv_null [OF assms(2)] assms(1) by (simp add: wfw_def)
next
  case False
  from wfv_block [OF assms(2) False] obtain b where b: "heap w (m_data v) = Some b"
    "length b = block_slots (m_capacity v)" "unat (m_size v) \<le> length b" "m_data v < next_addr w"
    "\<forall>k<length b. (b ! k \<noteq> None) = (k < unat (m_size v))" "slots v w = b"
    "unat (m_size v) \<le> unat (m_capacity v)" by blast
  then show ?thesis by auto
qed

lemma wfv_slots:
  assumes "wfw w" "wfv v w"
  shows "unat (m_size v) \<le> length (slots v w)"
    and "\<forall>k<unat (m_size v). slots v w ! k \<noteq> None"
    and "m_data v < next_addr w"
    and "unat (m_size v) \<le> unat (m_capacity v)"
  using wfv_slots_all [OF assms] by simp_all

lemma blit_fresh:
  "hi \<le> n \<Longrightarrow> hi \<le> length sb \<Longrightarrow>
   blit (replicate n None) 0 sb 0 0 hi = take hi sb @ replicate (n - hi) None"
  by (rule nth_equalityI) (auto simp: nth_append)

lemma fresh_copy_cases [consumes 3, case_names fault throw ok]:
  assumes "wfw w" "wfv v w" "unat k \<le> unat (m_size v)"
  obtains
    (fault) "copy_construct_all (next_addr w, 0) (m_data v, 0) k (fresh nc w) = Fault"
      "block_slots nc < unat k"
  | (throw) w2 where
      "copy_construct_all (next_addr w, 0) (m_data v, 0) k (fresh nc w) = Throw CopyFailed w2"
      "heap w2 = heap (fresh nc w)" "next_addr w2 = Suc (next_addr w)" "throw_countdown w2 = 0"
      "0 < unat (throw_countdown w)" "unat (throw_countdown w) \<le> unat k"
  | (ok) w2 where
      "copy_construct_all (next_addr w, 0) (m_data v, 0) k (fresh nc w) = Ok () w2"
      "heap w2 = (heap w)(next_addr w \<mapsto> take (unat k) (slots v w) @ replicate (block_slots nc - unat k) None)"
      "next_addr w2 = Suc (next_addr w)"
      "throw_countdown w2 = (if throw_countdown w = 0 then 0 else throw_countdown w - k)"
      "throw_countdown w = 0 \<or> unat k < unat (throw_countdown w)"
      "unat k \<le> block_slots nc"
proof (cases "k = 0")
  case True
  show ?thesis
    by (rule ok [of "fresh nc w"]) (auto simp: True unat_gt_0)
next
  case kz: False
  then have kpos: "0 < unat k" by (simp add: unat_gt_0)
  have dz: "m_data v \<noteq> 0"
  proof
    assume "m_data v = 0"
    then have "m_size v = 0" using wfv_null [OF assms(2)] by simp
    then show False using kpos assms(3) by simp
  qed
  from wfv_block [OF assms(2) dz] obtain b where b: "heap w (m_data v) = Some b"
    "length b = block_slots (m_capacity v)" "unat (m_size v) \<le> length b" "m_data v < next_addr w"
    "\<forall>k<length b. (b ! k \<noteq> None) = (k < unat (m_size v))" "slots v w = b" by blast
  have ne: "next_addr w \<noteq> m_data v" using b(4) by simp
  have h1: "heap (fresh nc w) (next_addr w) = Some (replicate (block_slots nc) None)" by simp
  have h2: "heap (fresh nc w) (m_data v) = Some b" using b(1) ne by simp
  have raw: "raw_from (replicate (block_slots nc) None) 0 (0 + unat k)" by (simp add: raw_from_def)
  have pre: "cca_pre (replicate (block_slots nc) None) 0 b 0 0 m = (m = 0 \<or> m \<le> block_slots nc)"
    if "m \<le> unat k" for m
  proof (cases "m = 0")
    case True then show ?thesis by (simp add: cca_pre_def)
  next
    case False
    have "cca_pre (replicate (block_slots nc) None) 0 b 0 0 m" if "m \<le> block_slots nc"
      using that b assms(3) \<open>m \<le> unat k\<close> by (auto simp: cca_pre_def)
    moreover have "m \<le> block_slots nc" if "cca_pre (replicate (block_slots nc) None) 0 b 0 0 m"
      using that False by (auto simp: cca_pre_def dest!: spec [of _ "m - 1"])
    ultimately show ?thesis using False by auto
  qed
  from h1 h2 ne raw show ?thesis
  proof (cases rule: cca_cases [where n = k and doff = 0 and soff = 0])
    case fault
    then show ?thesis using pre [of "unat k"] kpos by (intro that(1)) auto
  next
    case (throw w')
    then show ?thesis by (intro that(2) [of w']) auto
  next
    case (ok w')
    have le: "unat k \<le> block_slots nc" using ok(6) pre [of "unat k"] kpos by auto
    have "blit (replicate (block_slots nc) None) 0 b 0 0 (unat k) = take (unat k) b @ replicate (block_slots nc - unat k) None"
      using le assms(3) b by (intro blit_fresh) auto
    then show ?thesis using ok le b(6) by (intro that(3) [of w']) auto
  qed
qed

lemma new_buffer_cases [consumes 2, case_names fault throw ok]:
  assumes "wfw w" "wfv v w"
  obtains
    (fault) "new_buffer v nc w = Fault" "block_slots nc < unat (m_size v)"
  | (throw) w' where "new_buffer v nc w = Throw CopyFailed (v, w')"
      "heap w' = heap w" "next_addr w' = Suc (next_addr w)" "throw_countdown w' = 0"
      "0 < unat (throw_countdown w)" "unat (throw_countdown w) \<le> unat (m_size v)"
  | (ok) w' where
      "new_buffer v nc w = Ok () (\<lparr>m_data = next_addr w, m_size = m_size v, m_capacity = nc\<rparr>, w')"
      "heap w' = (heap w)(m_data v := None,
          next_addr w \<mapsto> take (unat (m_size v)) (slots v w) @ replicate (block_slots nc - unat (m_size v)) None)"
      "next_addr w' = Suc (next_addr w)"
      "throw_countdown w' = (if throw_countdown w = 0 then 0 else throw_countdown w - m_size v)"
      "throw_countdown w = 0 \<or> unat (m_size v) < unat (throw_countdown w)"
      "unat (m_size v) \<le> block_slots nc"
proof (cases "nc < m_size v")
  case True
  then have "unat nc < unat (m_size v)" by (simp add: word_less_nat_alt)
  then have "block_slots nc < unat (m_size v)" using block_slots_le [of nc] by simp
  then show ?thesis using True by (intro fault) (simp_all add: new_buffer_def)
next
  case False
  then have le: "unat (m_size v) \<le> unat nc" by (simp add: word_le_nat_alt not_less)
  obtain d n c where v: "v = \<lparr>m_data = d, m_size = n, m_capacity = c\<rparr>" by (cases v)
  have a0: "next_addr w \<noteq> 0" and ha: "heap w (next_addr w) = None"
    using assms(1) by (simp_all add: wfw_def)
  have dlt: "d < next_addr w" using wfv_slots(3) [OF assms] v by simp
  have self: "unat (m_size v) \<le> unat (m_size v)" by simp
  from assms self show ?thesis
  proof (cases rule: fresh_copy_cases [where nc = nc])
    case fault
    then have "new_buffer v nc w = Fault"
      using False by (simp add: new_buffer_def operator_new_eq)
    then show ?thesis using fault(2) by (intro that(1)) simp_all
  next
    case (throw w2)
    have "heap w2 (next_addr w) = Some (replicate (block_slots nc) None)" using throw(2) by simp
    from vector_dtor_block [OF this a0, of 0 nc]
    obtain w3 where w3: "vector_dtor \<lparr>m_data = next_addr w, m_size = 0, m_capacity = nc\<rparr> w2 = Some w3"
      "heap w3 = (heap w2)(next_addr w := None)" "next_addr w3 = next_addr w2"
      "throw_countdown w3 = throw_countdown w2" by auto
    have "heap w3 = heap w" using w3(2) throw(2) ha by (simp add: fun_upd_idem)
    moreover have "new_buffer v nc w = Throw CopyFailed (v, w3)"
      using False throw(1) w3(1) by (simp add: new_buffer_def operator_new_eq)
    ultimately show ?thesis using throw w3 by (intro that(2) [of w3]) auto
  next
    case (ok w2)
    have sw: "swap_vec v \<lparr>m_data = next_addr w, m_size = m_size v, m_capacity = nc\<rparr>
        = (\<lparr>m_data = next_addr w, m_size = m_size v, m_capacity = nc\<rparr>, v)"
      by (simp add: swap_vec_def v)
    have wf2: "wfv v w2"
      using assms(2) ok(2,3) dlt v by (auto simp: wfv_def)
    have wfw2: "wfw w2" using assms(1) ok(2,3) by (auto simp: wfw_def)
    from wfv_dtor [OF wfw2 wf2] obtain w3 where w3: "vector_dtor v w2 = Some w3"
      "heap w3 = (heap w2)(m_data v := None)" "next_addr w3 = next_addr w2"
      "throw_countdown w3 = throw_countdown w2" by blast
    have "new_buffer v nc w = Ok () (\<lparr>m_data = next_addr w, m_size = m_size v, m_capacity = nc\<rparr>, w3)"
      using False ok(1) w3(1) sw by (simp add: new_buffer_def operator_new_eq)
    moreover have "heap w3 = (heap w)(m_data v := None,
          next_addr w \<mapsto> take (unat (m_size v)) (slots v w) @ replicate (block_slots nc - unat (m_size v)) None)"
      using w3(2) ok(2) dlt v by (auto simp: fun_upd_twist)
    ultimately show ?thesis using ok w3 by (intro that(3) [of w3]) auto
  qed
qed

text \<open>
  Claim C6. \<^verbatim>\<open>copy_construct_all(dst, src, n)\<close>, general policy: the destination slots
  \<open>dst[0..n)\<close> are raw and inside their block, the source elements \<open>src[0..n)\<close> are
  live, and the copy construction of the element at index \<open>i < n\<close> throws (the countdown
  of the element kind stands at \<open>i + 1\<close>). Then the call ends with the same exception,
  the destructor calls it made are exactly those of \<open>dst[i - 1]\<close>, ..., \<open>dst[0]\<close> in
  this order, no slot of \<open>dst[0..n)\<close> holds a live element afterwards, and the whole heap
  is as it was before the call.
\<close>

theorem copy_construct_all_unwinds:
  assumes dst: "heap w d = Some db" and src: "heap w s = Some sb" and ne: "d \<noteq> s"
    and room: "doff + unat n \<le> length db"
    and raw: "\<forall>k<unat n. db ! (doff + k) = None"
    and live: "soff + unat n \<le> length sb" "\<forall>k<unat n. sb ! (soff + k) \<noteq> None"
    and fails: "unat (throw_countdown w) = Suc i" "i < unat n"
  shows "\<exists>w'. copy_construct_all (d, doff) (s, soff) n w = Throw CopyFailed w' \<and>
      dtor_log w' = dtor_log w @ map (\<lambda>k. (d, doff + k)) (rev [0..<i]) \<and>
      (\<forall>k<unat n. load (d, doff + k) w' = None) \<and> heap w' = heap w"
proof -
  have r: "raw_from db doff (doff + unat n)"
    unfolding raw_from_def
  proof (intro allI impI)
    fix k assume "doff \<le> k \<and> k < doff + unat n \<and> k < length db"
    then have "k - doff < unat n" "doff + (k - doff) = k" by auto
    then show "db ! k = None" using raw by metis
  qed
  have pre: "cca_pre db doff sb soff 0 (unat n)"
    using room live by (auto simp: cca_pre_def)
  from dst src ne r show ?thesis
  proof (cases rule: cca_cases [where soff = soff])
    case fault
    then show ?thesis using pre by simp
  next
    case (throw w')
    have "\<forall>k<unat n. load (d, doff + k) w' = None"
      using throw(2) dst raw room by (simp add: load_def)
    then show ?thesis using throw fails by (simp add: rev_map)
  next
    case (ok w')
    then show ?thesis using fails by auto
  qed
qed

definition w_c6 :: "nat world" where
  "w_c6 = \<lparr>heap = (\<lambda>a. None)(1 \<mapsto> [None, None, None], 2 \<mapsto> [Some 10, Some 20, Some 30]),
           next_addr = 3, throw_countdown = 3, instances = 3, dtor_log = []\<rparr>"

lemma all_less_3: "(\<forall>k<(3::nat). P k) = (P 0 \<and> P 1 \<and> P 2)"
proof -
  have "(k < 3) = (k = 0 \<or> k = 1 \<or> k = 2)" for k :: nat by arith
  then show ?thesis by auto
qed

theorem copy_construct_all_unwinds_witness:
  "\<exists>w'. copy_construct_all (1, 0) (2, 0) 3 w_c6 = Throw CopyFailed w' \<and>
      dtor_log w' = [(1, 1), (1, 0)] \<and>
      load (1, 0) w' = None \<and> load (1, 1) w' = None \<and> load (1, 2) w' = None \<and>
      heap w' = heap w_c6"
proof -
  have u3: "unat (3 :: size_t) = 3" by simp
  have h: "heap w_c6 1 = Some [None, None, None]" "heap w_c6 2 = Some [Some 10, Some 20, Some 30]"
    "(1 :: nat) \<noteq> 2" "0 + unat (3 :: size_t) \<le> length [None, None, None :: nat option]"
    "\<forall>k<unat (3 :: size_t). [None, None, None :: nat option] ! (0 + k) = None"
    "0 + unat (3 :: size_t) \<le> length [Some 10, Some 20, Some (30 :: nat)]"
    "\<forall>k<unat (3 :: size_t). [Some 10, Some 20, Some (30 :: nat)] ! (0 + k) \<noteq> None"
    "unat (throw_countdown w_c6) = Suc 2" "2 < unat (3 :: size_t)"
    by (simp_all add: w_c6_def u3 all_less_3)
  have upt: "rev [0..<2] = [1, 0 :: nat]" by (simp add: numeral_2_eq_2)
  from copy_construct_all_unwinds [OF h] show ?thesis
    by (simp add: u3 all_less_3 upt w_c6_def)
qed

section \<open>What a call leaves behind\<close>

text \<open>
  \<open>ok_post v w v' w'\<close> relates the state before a call on the container \<open>v\<close> with the
  state after it: world and container are well formed again, the container's block is the
  old one or a fresh one, the old block is released when it was replaced, and no other
  address of the heap has changed.
  \<open>strong_post\<close> adds the strong guarantee for a call that throws: container and heap are
  as before.
\<close>

definition ok_post :: "vec \<Rightarrow> 'a world \<Rightarrow> vec \<Rightarrow> 'a world \<Rightarrow> bool" where
  "ok_post v w v' w' =
     (wfw w' \<and> wfv v' w' \<and> next_addr w \<le> next_addr w' \<and>
      (m_data v' = m_data v \<or> next_addr w \<le> m_data v') \<and>
      (\<forall>a. a \<noteq> m_data v' \<longrightarrow> heap w' a = (if a = m_data v then None else heap w a)))"

definition strong_post :: "vec \<Rightarrow> 'a world \<Rightarrow> ('r, vec \<times> 'a world) res \<Rightarrow> bool" where
  "strong_post v w r =
     (case r of
        Fault \<Rightarrow> True
      | Ok _ (v', w') \<Rightarrow> ok_post v w v' w'
      | Throw e (v', w') \<Rightarrow> e = CopyFailed \<and> v' = v \<and> heap w' = heap w \<and> next_addr w \<le> next_addr w')"

definition basic_post :: "vec \<Rightarrow> 'a world \<Rightarrow> ('r, vec \<times> 'a world) res \<Rightarrow> bool" where
  "basic_post v w r =
     (case r of
        Fault \<Rightarrow> True
      | Ok _ (v', w') \<Rightarrow> ok_post v w v' w'
      | Throw e (v', w') \<Rightarrow> ok_post v w v' w')"

lemma wfv_frame:
  "wfv v w \<Longrightarrow> heap w' (m_data v) = heap w (m_data v) \<Longrightarrow> next_addr w \<le> next_addr w' \<Longrightarrow> wfv v w'"
  by (auto simp: wfv_def split: option.splits)

lemma wfw_same_heap:
  "wfw w \<Longrightarrow> heap w' = heap w \<Longrightarrow> next_addr w \<le> next_addr w' \<Longrightarrow> wfw w'"
  by (auto simp: wfw_def)

lemma wfw_delete:
  "wfw w \<Longrightarrow> heap w' = (heap w)(a := None) \<Longrightarrow> next_addr w' = next_addr w \<Longrightarrow> wfw w'"
  by (auto simp: wfw_def)

lemma swap_vec_eq: "swap_vec a b = (b, a)"
  by (cases a, cases b) (simp add: swap_vec_def)

lemma strong_imp_basic:
  "wfw w \<Longrightarrow> wfv v w \<Longrightarrow> strong_post v w r \<Longrightarrow> basic_post v w r"
  by (cases r) (auto simp: strong_post_def basic_post_def ok_post_def wfw_same_heap wfv_frame)

lemma ok_post_refl: "wfw w \<Longrightarrow> wfv v w \<Longrightarrow> ok_post v w v w"
  by (simp add: ok_post_def)

lemma wfw_fresh_block:
  assumes "wfw w" "heap w' = (heap w)(d := None, next_addr w \<mapsto> b)" "next_addr w' = Suc (next_addr w)"
  shows "wfw w'"
  using assms by (auto simp: wfw_def)

lemma new_block_wfv:
  assumes "wfw w" "wfv v w" "unat (m_size v) \<le> block_slots nc" "heap w' (next_addr w)
      = Some (take (unat (m_size v)) (slots v w) @ replicate (block_slots nc - unat (m_size v)) None)"
    "next_addr w < next_addr w'"
  shows "wfv \<lparr>m_data = next_addr w, m_size = m_size v, m_capacity = nc\<rparr> w'"
proof -
  note s = wfv_slots [OF assms(1,2)]
  have a0: "next_addr w \<noteq> 0" using assms(1) by (simp add: wfw_def)
  show ?thesis
  proof (rule wfvI [OF _ _ _ _ _])
    show "heap w' (m_data \<lparr>m_data = next_addr w, m_size = m_size v, m_capacity = nc\<rparr>)
       = Some (take (unat (m_size v)) (slots v w) @ replicate (block_slots nc - unat (m_size v)) None)"
      using assms(4) by simp
    show "\<forall>k<length (take (unat (m_size v)) (slots v w) @ replicate (block_slots nc - unat (m_size v)) None).
       ((take (unat (m_size v)) (slots v w) @ replicate (block_slots nc - unat (m_size v)) None) ! k \<noteq> None)
         = (k < unat (m_size \<lparr>m_data = next_addr w, m_size = m_size v, m_capacity = nc\<rparr>))"
      using s(1,2) assms(3) by (auto simp: nth_append)
  qed (use s(1) assms(3,5) a0 in auto)
qed

lemma new_buffer_strong:
  assumes "wfw w" "wfv v w"
  shows "strong_post v w (new_buffer v nc w)"
  using assms
proof (cases rule: new_buffer_cases [where nc = nc])
  case fault
  then show ?thesis by (simp add: strong_post_def)
next
  case (throw w')
  then show ?thesis by (simp add: strong_post_def)
next
  case (ok w')
  have "wfw w'" using assms(1) ok(2,3) by (rule wfw_fresh_block)
  moreover have "wfv \<lparr>m_data = next_addr w, m_size = m_size v, m_capacity = nc\<rparr> w'"
    using assms ok(6) by (rule new_block_wfv) (simp_all add: ok)
  ultimately show ?thesis using ok by (simp add: strong_post_def ok_post_def)
qed

lemma reserve_strong: "wfw w \<Longrightarrow> wfv v w \<Longrightarrow> strong_post v w (reserve v n w)"
  by (simp add: reserve_def new_buffer_strong) (simp add: strong_post_def ok_post_refl)

lemma shrink_to_fit_strong: "wfw w \<Longrightarrow> wfv v w \<Longrightarrow> strong_post v w (shrink_to_fit v w)"
  by (simp add: shrink_to_fit_def new_buffer_strong) (simp add: strong_post_def ok_post_refl)

section \<open>One step of \<open>push_back\<close>\<close>

lemma push_back_step_cases [consumes 3, case_names fault append_throws append throw call]:
  assumes "(if m_size v \<noteq> m_capacity v then
        Some (case construct_at (vend v) val w of
                Fault \<Rightarrow> Fault
              | Throw e w' \<Rightarrow> Throw e (v, w')
              | Ok _ w' \<Rightarrow> Ok () (v\<lparr>m_size := m_size v + 1\<rparr>, w'))
      else push_back_realloc f v val w) = Some r"
    and "wfw w" "wfv v w"
  obtains
    (fault) "r = Fault"
      "if m_size v = m_capacity v then block_slots (increase_capacity v) < unat (m_size v)
       else block_slots (m_capacity v) \<le> unat (m_size v)"
  | (append_throws) "m_size v \<noteq> m_capacity v" "throw_countdown w = 1"
      "r = Throw CopyFailed (v, w\<lparr>throw_countdown := 0\<rparr>)"
  | (append) b where "m_size v \<noteq> m_capacity v" "throw_countdown w \<noteq> 1" "m_data v \<noteq> 0"
      "heap w (m_data v) = Some b" "unat (m_size v) < unat (m_capacity v)"
      "r = Ok () (v\<lparr>m_size := m_size v + 1\<rparr>,
            w\<lparr>heap := (heap w)(m_data v \<mapsto> b[unat (m_size v) := Some val]),
              throw_countdown := (if throw_countdown w = 0 then 0 else throw_countdown w - 1),
              instances := instances w + 1\<rparr>)"
      "unat (m_size v) < length b" "length b = block_slots (m_capacity v)"
  | (throw) w' where "m_size v = m_capacity v" "r = Throw CopyFailed (v, w')"
      "heap w' = heap w" "next_addr w' = Suc (next_addr w)" "throw_countdown w' = 0"
      "0 < unat (throw_countdown w)" "unat (throw_countdown w) \<le> unat (m_size v)"
  | (call) w2 r' where "m_size v = m_capacity v"
      "f \<lparr>m_data = next_addr w, m_size = m_size v, m_capacity = increase_capacity v\<rparr> val w2 = Some r'"
      "wfw w2" "wfv \<lparr>m_data = next_addr w, m_size = m_size v, m_capacity = increase_capacity v\<rparr> w2"
      "heap w2 = (heap w)(next_addr w \<mapsto> take (unat (m_size v)) (slots v w)
          @ replicate (block_slots (increase_capacity v) - unat (m_size v)) None)"
      "next_addr w2 = Suc (next_addr w)"
      "throw_countdown w2 = (if throw_countdown w = 0 then 0 else throw_countdown w - m_size v)"
      "throw_countdown w = 0 \<or> unat (m_size v) < unat (throw_countdown w)"
      "unat (m_size v) \<le> block_slots (increase_capacity v)"
      "r = (case r' of
              Fault \<Rightarrow> Fault
            | Throw e (tmp', w3) \<Rightarrow>
               (case vector_dtor tmp' w3 of None \<Rightarrow> Fault | Some w4 \<Rightarrow> Throw e (v, w4))
            | Ok _ (tmp', w3) \<Rightarrow>
               (case vector_dtor v w3 of None \<Rightarrow> Fault | Some w4 \<Rightarrow> Ok () (tmp', w4)))"
proof (cases "m_size v = m_capacity v")
  case False
  then have lt: "unat (m_size v) < unat (m_capacity v)"
    using wfv_slots(4) [OF assms(2,3)] by (simp add: word_unat_eq_iff)
  then have dz: "m_data v \<noteq> 0" using assms(3) by (auto simp: wfv_def split: if_splits)
  from wfv_block [OF assms(3) dz] obtain b where b: "heap w (m_data v) = Some b"
    "length b = block_slots (m_capacity v)" by blast
  have r: "r = (case construct_at (m_data v, unat (m_size v)) val w of
                Fault \<Rightarrow> Fault
              | Throw e w' \<Rightarrow> Throw e (v, w')
              | Ok _ w' \<Rightarrow> Ok () (v\<lparr>m_size := m_size v + 1\<rparr>, w'))"
    using assms(1) False by (simp add: vend_def)
  show ?thesis
  proof (cases "unat (m_size v) < length b")
    case out: False
    then have "r = Fault" using r b by (simp add: construct_at_eq)
    then show ?thesis using out b(2) False by (intro fault) simp_all
  next
    case inside: True
    show ?thesis
    proof (cases "throw_countdown w = 1")
      case True
      then show ?thesis using r b inside False
        by (intro append_throws) (simp_all add: construct_at_eq)
    next
      case False
      then show ?thesis using r b lt inside \<open>m_size v \<noteq> m_capacity v\<close> dz
        by (intro append [of b]) (simp_all add: construct_at_eq)
    qed
  qed
next
  case True
  define nc where "nc = increase_capacity v"
  define tmp where "tmp = \<lparr>m_data = next_addr w, m_size = 0, m_capacity = nc\<rparr>"
  have a0: "next_addr w \<noteq> 0" and ha: "heap w (next_addr w) = None"
    using assms(2) by (simp_all add: wfw_def)
  have body: "push_back_realloc f v val w = Some r" using assms(1) True by simp
  have self: "unat (m_size v) \<le> unat (m_size v)" by simp
  from assms(2,3) self show ?thesis
  proof (cases rule: fresh_copy_cases [where nc = nc])
    case fault
    then have "r = Fault"
      using body by (simp add: push_back_realloc_def new_buffer_fresh nc_def)
    then show ?thesis using True fault(2) by (intro that(1)) (simp_all add: nc_def)
  next
    case (throw w2)
    have "heap w2 (next_addr w) = Some (replicate (block_slots nc) None)" using throw(2) by simp
    from vector_dtor_block [OF this a0, of 0 nc]
    obtain w3 where w3: "vector_dtor \<lparr>m_data = next_addr w, m_size = 0, m_capacity = nc\<rparr> w2 = Some w3"
      "heap w3 = (heap w2)(next_addr w := None)" "next_addr w3 = next_addr w2"
      "throw_countdown w3 = throw_countdown w2" by auto
    have "heap w3 = heap w" using w3(2) throw(2) ha by (simp add: fun_upd_idem)
    moreover have "r = Throw CopyFailed (v, w3)"
      using body throw(1) w3(1) by (simp add: push_back_realloc_def new_buffer_fresh nc_def)
    ultimately show ?thesis using throw w3 True by (intro that(4) [of w3]) auto
  next
    case (ok w2)
    define t where "t = \<lparr>m_data = next_addr w, m_size = m_size v, m_capacity = nc\<rparr>"
    have b2: "Option.bind (f t val w2) (\<lambda>r. Some (case r of
                  Fault \<Rightarrow> Fault
                | Throw e (tmp', w3) \<Rightarrow>
                   (case vector_dtor tmp' w3 of
                      None \<Rightarrow> Fault
                    | Some w4 \<Rightarrow> Throw e (v, w4))
                | Ok _ (tmp', w3) \<Rightarrow>
                   (case swap_vec v tmp' of
                      (v', old) \<Rightarrow>
                        (case vector_dtor old w3 of
                           None \<Rightarrow> Fault
                         | Some w4 \<Rightarrow> Ok () (v', w4))))) = Some r"
      using body ok(1) by (simp add: push_back_realloc_def new_buffer_fresh nc_def t_def)
    then obtain r' where r': "f t val w2 = Some r'"
      and req: "r = (case r' of
              Fault \<Rightarrow> Fault
            | Throw e (tmp', w3) \<Rightarrow>
               (case vector_dtor tmp' w3 of None \<Rightarrow> Fault | Some w4 \<Rightarrow> Throw e (v, w4))
            | Ok _ (tmp', w3) \<Rightarrow>
               (case vector_dtor v w3 of None \<Rightarrow> Fault | Some w4 \<Rightarrow> Ok () (tmp', w4)))"
      by (auto simp: bind_eq_Some_conv swap_vec_eq split: res.split prod.split)
    have wfw2: "wfw w2" using assms(2) ok(2,3) by (auto simp: wfw_def)
    have wft: "wfv t w2" unfolding t_def
      using assms(2,3) ok(6) by (rule new_block_wfv) (simp_all add: ok)
    show ?thesis
      using True r' wfw2 wft ok req by (intro that(5) [of w2 r']) (simp_all add: t_def nc_def)
  qed
qed

lemma push_back_cases [consumes 3, case_names fault append_throws append throw call]:
  assumes "push_back v val w = Some r" and "wfw w" "wfv v w"
  obtains
    (fault) "r = Fault"
      "if m_size v = m_capacity v then block_slots (increase_capacity v) < unat (m_size v)
       else block_slots (m_capacity v) \<le> unat (m_size v)"
  | (append_throws) "m_size v \<noteq> m_capacity v" "throw_countdown w = 1"
      "r = Throw CopyFailed (v, w\<lparr>throw_countdown := 0\<rparr>)"
  | (append) b where "m_size v \<noteq> m_capacity v" "throw_countdown w \<noteq> 1" "m_data v \<noteq> 0"
      "heap w (m_data v) = Some b" "unat (m_size v) < unat (m_capacity v)"
      "r = Ok () (v\<lparr>m_size := m_size v + 1\<rparr>,
            w\<lparr>heap := (heap w)(m_data v \<mapsto> b[unat (m_size v) := Some val]),
              throw_countdown := (if throw_countdown w = 0 then 0 else throw_countdown w - 1),
              instances := instances w + 1\<rparr>)"
      "unat (m_size v) < length b" "length b = block_slots (m_capacity v)"
  | (throw) w' where "m_size v = m_capacity v" "r = Throw CopyFailed (v, w')"
      "heap w' = heap w" "next_addr w' = Suc (next_addr w)" "throw_countdown w' = 0"
      "0 < unat (throw_countdown w)" "unat (throw_countdown w) \<le> unat (m_size v)"
  | (call) w2 r' where "m_size v = m_capacity v"
      "push_back \<lparr>m_data = next_addr w, m_size = m_size v, m_capacity = increase_capacity v\<rparr> val w2 = Some r'"
      "wfw w2" "wfv \<lparr>m_data = next_addr w, m_size = m_size v, m_capacity = increase_capacity v\<rparr> w2"
      "heap w2 = (heap w)(next_addr w \<mapsto> take (unat (m_size v)) (slots v w)
          @ replicate (block_slots (increase_capacity v) - unat (m_size v)) None)"
      "next_addr w2 = Suc (next_addr w)"
      "throw_countdown w2 = (if throw_countdown w = 0 then 0 else throw_countdown w - m_size v)"
      "throw_countdown w = 0 \<or> unat (m_size v) < unat (throw_countdown w)"
      "unat (m_size v) \<le> block_slots (increase_capacity v)"
      "r = (case r' of
              Fault \<Rightarrow> Fault
            | Throw e (tmp', w3) \<Rightarrow>
               (case vector_dtor tmp' w3 of None \<Rightarrow> Fault | Some w4 \<Rightarrow> Throw e (v, w4))
            | Ok _ (tmp', w3) \<Rightarrow>
               (case vector_dtor v w3 of None \<Rightarrow> Fault | Some w4 \<Rightarrow> Ok () (tmp', w4)))"
proof -
  have "(if m_size v \<noteq> m_capacity v then
        Some (case construct_at (vend v) val w of
                Fault \<Rightarrow> Fault
              | Throw e w' \<Rightarrow> Throw e (v, w')
              | Ok _ w' \<Rightarrow> Ok () (v\<lparr>m_size := m_size v + 1\<rparr>, w'))
      else push_back_realloc push_back v val w) = Some r"
    using assms(1) by (subst (asm) push_back.simps)
  from this assms(2,3) show thesis
    by (cases rule: push_back_step_cases) (rule that; assumption)+
qed

lemma append_wfv:
  assumes "wfv v w" "m_data v \<noteq> 0" "heap w (m_data v) = Some b"
    "unat (m_size v) < length b"
    "heap w' = (heap w)(m_data v \<mapsto> b[unat (m_size v) := Some val])"
    "next_addr w' = next_addr w"
  shows "wfv (v\<lparr>m_size := m_size v + 1\<rparr>) w'"
proof -
  from wfv_block [OF assms(1,2)] obtain b' where b': "heap w (m_data v) = Some b'"
    "length b' = block_slots (m_capacity v)" "m_data v < next_addr w"
    "\<forall>k<length b'. (b' ! k \<noteq> None) = (k < unat (m_size v))" by blast
  have bb: "b' = b" using b'(1) assms(3) by simp
  have lt: "unat (m_size v) < unat (m_capacity v)"
    using assms(4) b'(2) bb block_slots_le [of "m_capacity v"] by simp
  then have ne: "m_size v \<noteq> m_capacity v" by auto
  have suc: "unat (m_size v + 1) = Suc (unat (m_size v))"
    using size_t_suc [OF ne] lt by simp
  show ?thesis
  proof (rule wfvI [where b = "b[unat (m_size v) := Some val]"])
    show "\<forall>k<length (b[unat (m_size v) := Some val]).
        (b[unat (m_size v) := Some val] ! k \<noteq> None) = (k < unat (m_size (v\<lparr>m_size := m_size v + 1\<rparr>)))"
      using b'(2,4) bb suc assms(4) by (auto simp: nth_list_update less_Suc_eq)
  qed (use assms b' bb suc in auto)
qed

lemma push_back_strong_step:
  assumes IH: "\<And>t x s r'. f t x s = Some r' \<Longrightarrow> wfw s \<longrightarrow> wfv t s \<longrightarrow> strong_post t s r'"
    and body: "(if m_size v \<noteq> m_capacity v then
        Some (case construct_at (vend v) val w of
                Fault \<Rightarrow> Fault
              | Throw e w' \<Rightarrow> Throw e (v, w')
              | Ok _ w' \<Rightarrow> Ok () (v\<lparr>m_size := m_size v + 1\<rparr>, w'))
      else push_back_realloc f v val w) = Some r"
    and wf: "wfw w" "wfv v w"
  shows "strong_post v w r"
  using body wf
proof (cases rule: push_back_step_cases)
  case fault
  then show ?thesis by (simp add: strong_post_def)
next
  case append_throws
  then show ?thesis by (simp add: strong_post_def)
next
  case (append b)
  define w' where "w' = w\<lparr>heap := (heap w)(m_data v \<mapsto> b[unat (m_size v) := Some val]),
              throw_countdown := (if throw_countdown w = 0 then 0 else throw_countdown w - 1),
              instances := instances w + 1\<rparr>"
  have "wfv (v\<lparr>m_size := m_size v + 1\<rparr>) w'"
    using wf(2) append(3,4,7) by (rule append_wfv) (simp_all add: w'_def)
  moreover have "wfw w'" using wf(1) append(3) wfv_slots(3) [OF wf]
    by (auto simp: wfw_def w'_def)
  ultimately show ?thesis using append(6)
    by (simp add: strong_post_def ok_post_def w'_def)
next
  case (throw w')
  then show ?thesis by (simp add: strong_post_def)
next
  case (call w2 r')
  define t where "t = \<lparr>m_data = next_addr w, m_size = m_size v, m_capacity = increase_capacity v\<rparr>"
  have sp: "strong_post t w2 r'" using IH [OF call(2)] call(3,4) by (simp add: t_def)
  have a0: "next_addr w \<noteq> 0" and ha: "heap w (next_addr w) = None"
    using wf(1) by (simp_all add: wfw_def)
  have dlt: "m_data v < next_addr w" by (rule wfv_slots(3) [OF wf])
  show ?thesis
  proof (cases r')
    case Fault
    then show ?thesis using call(10) by (simp add: strong_post_def)
  next
    case (Throw e s)
    obtain t' w3 where s: "s = (t', w3)" by (cases s)
    have e: "e = CopyFailed" and t': "t' = t" and h3: "heap w3 = heap w2"
      and n3: "next_addr w2 \<le> next_addr w3"
      using sp Throw s by (simp_all add: strong_post_def)
    have "wfw w3" using call(3) h3 n3 by (rule wfw_same_heap)
    moreover have "wfv t w3" by (rule wfv_frame [OF call(4) [folded t_def]]) (simp_all add: h3 n3)
    ultimately obtain w4 where w4: "vector_dtor t w3 = Some w4"
      "heap w4 = (heap w3)(m_data t := None)" "next_addr w4 = next_addr w3"
      by (rule wfv_dtor)
    have "heap w4 = heap w" using w4(2) h3 call(5) ha by (simp add: t_def fun_upd_idem)
    moreover have "r = Throw CopyFailed (v, w4)"
      using call(10) Throw s e t' w4(1) by simp
    ultimately show ?thesis using w4(3) n3 call(6) by (simp add: strong_post_def)
  next
    case (Ok u s)
    obtain t' w3 where s: "s = (t', w3)" by (cases s)
    have op: "ok_post t w2 t' w3" using sp Ok s by (simp add: strong_post_def)
    then have wfw3: "wfw w3" and wft': "wfv t' w3" and n3: "next_addr w2 \<le> next_addr w3"
      and d': "m_data t' = next_addr w \<or> Suc (next_addr w) \<le> m_data t'"
      and fr: "\<And>a. a \<noteq> m_data t' \<Longrightarrow> heap w3 a = (if a = next_addr w then None else heap w2 a)"
      using call(6) by (auto simp: ok_post_def t_def)
    have hv: "heap w3 (m_data v) = heap w (m_data v)"
      using fr [of "m_data v"] dlt call(5) d' by auto
    have "wfv v w3" by (rule wfv_frame [OF wf(2) hv]) (use n3 call(6) in simp)
    with wfw3 obtain w4 where w4: "vector_dtor v w3 = Some w4"
      "heap w4 = (heap w3)(m_data v := None)" "next_addr w4 = next_addr w3"
      by (rule wfv_dtor)
    have r: "r = Ok () (t', w4)" using call(10) Ok s w4(1) by simp
    have "wfw w4" using wfw3 w4(2,3) by (rule wfw_delete)
    moreover have "wfv t' w4"
      by (rule wfv_frame [OF wft']) (use w4 d' dlt in auto)
    moreover have "heap w4 a = (if a = m_data v then None else heap w a)" if "a \<noteq> m_data t'" for a
      using that w4(2) fr [of a] call(5) ha by auto
    ultimately show ?thesis using r d' n3 call(6) w4(3)
      by (auto simp: strong_post_def ok_post_def)
  qed
qed

lemma push_back_strong:
  assumes "push_back v val w = Some r" "wfw w" "wfv v w"
  shows "strong_post v w r"
proof -
  have "wfw w \<longrightarrow> wfv v w \<longrightarrow> strong_post v w r"
  proof (rule push_back.raw_induct [where P = "\<lambda>v val w r. wfw w \<longrightarrow> wfv v w \<longrightarrow> strong_post v w r",
        OF _ assms(1)])
    fix f :: "vec \<Rightarrow> 'a \<Rightarrow> 'a world \<Rightarrow> (unit, vec \<times> 'a world) res option"
      and v val w va
    assume IH: "\<And>t x s r'. f t x s = Some r' \<Longrightarrow> wfw s \<longrightarrow> wfv t s \<longrightarrow> strong_post t s r'"
      and body: "(if m_size v \<noteq> m_capacity v then
        Some (case construct_at (vend v) val w of
                Fault \<Rightarrow> Fault
              | Throw e w' \<Rightarrow> Throw e (v, w')
              | Ok _ w' \<Rightarrow> Ok () (v\<lparr>m_size := m_size v + 1\<rparr>, w'))
      else push_back_realloc f v val w) = Some va"
    show "wfw w \<longrightarrow> wfv v w \<longrightarrow> strong_post v w va"
    proof (intro impI)
      assume "wfw w" "wfv v w"
      with IH body show "strong_post v w va" by (rule push_back_strong_step)
    qed
  qed
  then show ?thesis using assms by simp
qed

section \<open>Capacity one\<close>

text \<open>
  A full container of capacity one: \<open>increase_capacity\<close> answers \<open>1 * 3 / 2 = 1\<close>, the
  temporary of \<open>push_back_realloc\<close> is full again once the element is copied, and its
  \<open>push_back\<close> is in the same position.
\<close>

definition stuck :: "vec \<Rightarrow> 'a world \<Rightarrow> bool" where
  "stuck v w = (wfw w \<and> wfv v w \<and> m_size v = 1 \<and> m_capacity v = 1 \<and> throw_countdown w = 0)"

lemma push_back_stuck_step:
  assumes IH: "\<And>t x s r'. f t x s = Some r' \<Longrightarrow> \<not> stuck t s"
    and body: "(if m_size v \<noteq> m_capacity v then
        Some (case construct_at (vend v) val w of
                Fault \<Rightarrow> Fault
              | Throw e w' \<Rightarrow> Throw e (v, w')
              | Ok _ w' \<Rightarrow> Ok () (v\<lparr>m_size := m_size v + 1\<rparr>, w'))
      else push_back_realloc f v val w) = Some r"
  shows "\<not> stuck v w"
proof
  assume st: "stuck v w"
  then have wf: "wfw w" "wfv v w" and sz: "m_size v = 1" "m_capacity v = 1"
    and tc: "throw_countdown w = 0" by (simp_all add: stuck_def)
  have inc: "increase_capacity v = 1" using sz by (simp add: increase_capacity_def)
  from body wf show False
  proof (cases rule: push_back_step_cases)
    case fault
    then show ?thesis using inc sz by (simp add: block_slots_eq)
  next
    case append_throws
    then show ?thesis using sz by simp
  next
    case (append b)
    then show ?thesis using sz by simp
  next
    case (throw w')
    then show ?thesis using tc by simp
  next
    case (call w2 r')
    have "stuck \<lparr>m_data = next_addr w, m_size = m_size v, m_capacity = increase_capacity v\<rparr> w2"
      using call(3,4,7) tc sz inc by (simp add: stuck_def)
    then show ?thesis using IH [OF call(2)] by simp
  qed
qed

lemma push_back_stuck: "stuck v w \<Longrightarrow> push_back v val w = None"
proof (rule ccontr)
  assume st: "stuck v w" and "push_back v val w \<noteq> None"
  then obtain r where r: "push_back v val w = Some r" by auto
  have "\<not> stuck v w"
  proof (rule push_back.raw_induct [where P = "\<lambda>v val w r. \<not> stuck v w", OF _ r])
    fix f :: "vec \<Rightarrow> 'a \<Rightarrow> 'a world \<Rightarrow> (unit, vec \<times> 'a world) res option"
      and v val w va
    assume IH: "\<And>t x s r'. f t x s = Some r' \<Longrightarrow> \<not> stuck t s"
      and body: "(if m_size v \<noteq> m_capacity v then
        Some (case construct_at (vend v) val w of
                Fault \<Rightarrow> Fault
              | Throw e w' \<Rightarrow> Throw e (v, w')
              | Ok _ w' \<Rightarrow> Ok () (v\<lparr>m_size := m_size v + 1\<rparr>, w'))
      else push_back_realloc f v val w) = Some va"
    show "\<not> stuck v w" using IH body by (rule push_back_stuck_step)
  qed
  then show False using st by simp
qed

section \<open>Growth that succeeds\<close>

lemma increase_capacity_gt:
  assumes "m_capacity v \<noteq> 1" "unat (m_capacity v) * 3 < 2 ^ 64"
  shows "unat (m_capacity v) < unat (increase_capacity v)"
proof (cases "m_capacity v = 0")
  case True
  then show ?thesis by (simp add: increase_capacity_def)
next
  case False
  have m: "unat (m_capacity v * 3) = unat (m_capacity v) * 3"
    using assms(2) unat_mult_lem [of "m_capacity v" 3] by simp
  have d: "unat (m_capacity v * 3 div 2) = unat (m_capacity v) * 3 div 2"
    using m by (simp add: unat_div)
  have "unat (m_capacity v) \<noteq> 0" "unat (m_capacity v) \<noteq> 1"
    using False assms(1) word_unat_eq_iff [of "m_capacity v" 1] by (simp_all add: unat_eq_zero)
  then have "unat (m_capacity v) < unat (m_capacity v) * 3 div 2" by arith
  then show ?thesis using False d by (simp add: increase_capacity_def)
qed

lemma countdown_after:
  assumes "throw_countdown w = 0 \<or> unat n + 1 < unat (throw_countdown w)"
  shows "(if throw_countdown w = 0 then 0 else throw_countdown w - n) \<noteq> (1 :: size_t)"
proof (cases "throw_countdown w = 0")
  case True
  then show ?thesis by simp
next
  case False
  then have lt: "unat n + 1 < unat (throw_countdown w)" using assms by simp
  then have "n \<le> throw_countdown w" by (simp add: word_le_nat_alt)
  then have "unat (throw_countdown w - n) = unat (throw_countdown w) - unat n" by (rule unat_sub)
  then have "unat (throw_countdown w - n) \<noteq> 1" using lt by simp
  then have "throw_countdown w - n \<noteq> 1" by auto
  then show ?thesis using False by simp
qed

lemma push_back_grows:
  assumes wf: "wfw w" "wfv v w" and full: "m_size v = m_capacity v"
    and room: "unat (m_size v) < block_slots (increase_capacity v)"
    and tc: "throw_countdown w = 0 \<or> unat (m_size v) + 1 < unat (throw_countdown w)"
  shows "\<exists>w'. push_back v val w = Some (Ok ()
        (\<lparr>m_data = next_addr w, m_size = m_size v + 1, m_capacity = increase_capacity v\<rparr>, w')) \<and>
      heap w' = (heap w)(m_data v := None, next_addr w \<mapsto>
         (take (unat (m_size v)) (slots v w)
            @ replicate (block_slots (increase_capacity v) - unat (m_size v)) None)
            [unat (m_size v) := Some val]) \<and>
      next_addr w' = Suc (next_addr w)"
proof -
  define nc where "nc = increase_capacity v"
  define t where "t = \<lparr>m_data = next_addr w, m_size = m_size v, m_capacity = nc\<rparr>"
  define nb where "nb = take (unat (m_size v)) (slots v w) @ replicate (block_slots nc - unat (m_size v)) None"
  have dlt: "m_data v < next_addr w" by (rule wfv_slots(3) [OF wf])
  have len: "length nb = block_slots nc"
    using wfv_slots(1) [OF wf] room by (simp add: nb_def nc_def)
  have self: "unat (m_size v) \<le> unat (m_size v)" by simp
  from wf self show ?thesis
  proof (cases rule: fresh_copy_cases [where nc = nc])
    case fault
    then show ?thesis using room by (simp add: nc_def)
  next
    case (throw w2)
    then show ?thesis using tc by auto
  next
    case (ok w2)
    have h2: "heap w2 (next_addr w) = Some nb" using ok(2) by (simp add: nb_def)
    have tc2: "throw_countdown w2 \<noteq> 1" unfolding ok(4) using tc by (rule countdown_after)
    define w3 where "w3 = w2\<lparr>heap := (heap w2)(next_addr w \<mapsto> nb[unat (m_size v) := Some val]),
          throw_countdown := (if throw_countdown w2 = 0 then 0 else throw_countdown w2 - 1),
          instances := instances w2 + 1\<rparr>"
    have "unat (m_size v) < unat nc" using room block_slots_le [of nc] by (simp add: nc_def)
    then have ne: "m_size v \<noteq> nc" by auto
    have inner: "push_back t val w2 = Some (Ok () (t\<lparr>m_size := m_size v + 1\<rparr>, w3))"
      using ne h2 tc2 room len
      by (subst push_back.simps) (simp add: t_def vend_def construct_at_eq w3_def nc_def)
    have hv: "heap w3 (m_data v) = heap w (m_data v)" using dlt ok(2) by (simp add: w3_def)
    have wfw3: "wfw w3" using wf(1) ok(2,3) by (auto simp: wfw_def w3_def)
    have "wfv v w3" by (rule wfv_frame [OF wf(2) hv]) (simp add: w3_def ok(3))
    with wfw3 obtain w4 where w4: "vector_dtor v w3 = Some w4"
      "heap w4 = (heap w3)(m_data v := None)" "next_addr w4 = next_addr w3"
      "throw_countdown w4 = throw_countdown w3"
      by (rule wfv_dtor)
    have "push_back v val w = push_back_realloc push_back v val w"
      using full by (subst push_back.simps) simp
    also have "\<dots> = Some (Ok () (t\<lparr>m_size := m_size v + 1\<rparr>, w4))"
      using ok(1) [unfolded nc_def] inner [unfolded t_def nc_def] w4(1)
      by (simp add: push_back_realloc_def new_buffer_fresh swap_vec_eq t_def nc_def)
    finally have "push_back v val w = Some (Ok () (t\<lparr>m_size := m_size v + 1\<rparr>, w4))" .
    moreover have "heap w4 = (heap w)(m_data v := None, next_addr w \<mapsto> nb[unat (m_size v) := Some val])"
      using w4(2) ok(2) dlt by (auto simp: w3_def fun_upd_twist)
    ultimately show ?thesis using w4(3) ok(3)
      by (simp add: t_def nc_def nb_def w3_def)
  qed
qed

section \<open>Concrete runs\<close>

lemmas eval_defs = init_def counted_copy_def counted_copy_ctor_def counted_assign_def
  counted_dtor_def ptr_add_def ptr_diff_def in_bounds_def load_def store_def construct_at_def
  destroy_at_def assign_at_def swap_at_def sizeof_T_def operator_new_def operator_delete_def
  deref_def
  vector_ctor_def vector_dtor_def swap_vec_def vbegin_def vend_def back_ptr_def
  increase_capacity_def new_buffer_def reserve_def shrink_to_fit_def clear_def pop_back_def
  copy_construct_all_def destroy_all_def cca_try.simps cca_catch.simps destroy_all_loop.simps
  push_back.simps push_back_realloc_def

definition v_reserved :: vec where
  "v_reserved = \<lparr>m_data = 1, m_size = 0, m_capacity = 10\<rparr>"

definition w_reserved :: "nat world" where
  "w_reserved = \<lparr>heap = (\<lambda>a. None)(1 \<mapsto> replicate 10 None), next_addr = 2,
                 throw_countdown = 0, instances = 0, dtor_log = []\<rparr>"

lemma reserve_10: "reserve vector_ctor 10 (snd init) = Ok () (v_reserved, w_reserved)"
  by (simp add: eval_defs v_reserved_def w_reserved_def)

text \<open>
  Claim C2. \<^verbatim>\<open>reserve(n)\<close> returns at once only for \<open>n < capacity\<close>. With \<open>n\<close> equal
  to the capacity it calls \<^verbatim>\<open>new_buffer\<close>: after \<^verbatim>\<open>vector a; a.reserve(10);\<close> the call
  \<^verbatim>\<open>a.reserve(10)\<close> allocates a second block, the data pointer changes from block 1 to
  block 2 and block 1 is released.
\<close>

theorem reserve_same_capacity_reallocates:
  "reserve vector_ctor 10 (snd init) = Ok () (v_reserved, w_reserved) \<and>
   m_capacity v_reserved = 10 \<and>
   reserve v_reserved 10 w_reserved
     = Ok () (\<lparr>m_data = 2, m_size = 0, m_capacity = 10\<rparr>,
              w_reserved\<lparr>heap := (\<lambda>a. None)(2 \<mapsto> replicate 10 None), next_addr := 3\<rparr>) \<and>
   m_data v_reserved \<noteq> 2"
  by (simp add: reserve_10) (auto simp: eval_defs v_reserved_def w_reserved_def fun_eq_iff)

lemma unat_minus_1_size_t: "unat (- 1 :: size_t) = 18446744073709551615"
  by (simp add: unsigned_minus_1_eq_mask mask_eq_exp_minus_1)

text \<open>
  Claim C7. \<^verbatim>\<open>insert(pos, val)\<close> on an empty container with spare capacity: after
  \<^verbatim>\<open>vector a; a.reserve(10);\<close> the call \<^verbatim>\<open>a.insert(a.begin(), 5)\<close> takes the branch
  without growth, whose first statement \<^verbatim>\<open>push_back(back())\<close> reads
  \<^verbatim>\<open>data_[size_ - 1]\<close> with \<^verbatim>\<open>size_ = 0\<close>: an element outside the block.
\<close>

theorem insert_into_empty_with_capacity_faults:
  "reserve vector_ctor 10 (snd init) = Ok () (v_reserved, w_reserved) \<and>
   m_size v_reserved = 0 \<and> m_size v_reserved \<noteq> m_capacity v_reserved \<and>
   back_ptr v_reserved = (1, 18446744073709551615) \<and>
   load (back_ptr v_reserved) w_reserved = None \<and>
   insert_it v_reserved (vbegin v_reserved) (Temporary 5) w_reserved = Some Fault"
  by (simp add: reserve_10)
    (simp add: insert_it_def eval_defs v_reserved_def w_reserved_def unat_minus_1_size_t)

text \<open>
  Claim C4. A full container of capacity one, as \<^verbatim>\<open>vector a; a.reserve(1); a.push_back(7);\<close>
  leaves it: \<^verbatim>\<open>increase_capacity\<close> returns the capacity it was given, and
  \<^verbatim>\<open>a.push_back(8)\<close> never returns.
\<close>

definition v_one :: vec where
  "v_one = \<lparr>m_data = 1, m_size = 1, m_capacity = 1\<rparr>"

definition w_one :: "nat world" where
  "w_one = \<lparr>heap = (\<lambda>a. None)(1 \<mapsto> [Some 7]), next_addr = 2,
            throw_countdown = 0, instances = 1, dtor_log = []\<rparr>"

lemma stuck_one: "stuck v_one w_one"
  by (simp add: stuck_def wfw_def wfv_def block_slots_eq v_one_def w_one_def)

theorem push_back_at_capacity_one_never_returns:
  "reserve vector_ctor 1 (snd init)
     = Ok () (\<lparr>m_data = 1, m_size = 0, m_capacity = 1\<rparr>,
              w_one\<lparr>heap := (\<lambda>a. None)(1 \<mapsto> [None]), instances := 0\<rparr>) \<and>
   push_back \<lparr>m_data = 1, m_size = 0, m_capacity = 1\<rparr> 7
       (w_one\<lparr>heap := (\<lambda>a. None)(1 \<mapsto> [None]), instances := 0\<rparr>)
     = Some (Ok () (v_one, w_one)) \<and>
   m_size v_one = m_capacity v_one \<and>
   increase_capacity v_one = m_capacity v_one \<and>
   push_back v_one 8 w_one = None"
proof -
  have "reserve vector_ctor 1 (snd init)
     = Ok () (\<lparr>m_data = 1, m_size = 0, m_capacity = 1\<rparr>,
              w_one\<lparr>heap := (\<lambda>a. None)(1 \<mapsto> [None]), instances := 0\<rparr>)"
    by (simp add: eval_defs w_one_def)
  moreover have "push_back \<lparr>m_data = 1, m_size = 0, m_capacity = 1\<rparr> 7
       (w_one\<lparr>heap := (\<lambda>a. None)(1 \<mapsto> [None]), instances := 0\<rparr>)
     = Some (Ok () (v_one, w_one))"
    by (simp add: eval_defs v_one_def w_one_def)
  moreover have "m_size v_one = m_capacity v_one" "increase_capacity v_one = m_capacity v_one"
    by (simp_all add: v_one_def increase_capacity_def)
  moreover have "push_back v_one 8 w_one = None" by (rule push_back_stuck [OF stuck_one])
  ultimately show ?thesis by simp
qed

section \<open>The growth law and the copy constructor\<close>

lemma elems_appended:
  assumes "n \<le> length sl" "n < c"
  shows "map the (take (Suc n) ((take n sl @ replicate (c - n) None)[n := Some val]))
    = map the (take n sl) @ [val]"
proof -
  have "take (Suc n) ((take n sl @ replicate (c - n) None)[n := Some val]) = take n sl @ [Some val]"
    using assms by (intro nth_equalityI) (auto simp: nth_append nth_list_update less_Suc_eq)
  then show ?thesis by simp
qed

lemma wfv_size_small:
  assumes "wfv v w"
  shows "unat (m_size v) < 2 ^ 61"
proof (cases "m_data v = 0")
  case True
  then have "unat (m_size v) = 0" using wfv_null [OF assms] by simp
  then show ?thesis by (simp only:) simp
next
  case False
  from wfv_block [OF assms False] obtain b where "heap w (m_data v) = Some b"
    "length b = block_slots (m_capacity v)" "unat (m_size v) \<le> length b" by blast
  then have "unat (m_size v) \<le> block_slots (m_capacity v)" by (simp only:)
  then show ?thesis using block_slots_lt [of "m_capacity v"] by (rule le_less_trans)
qed

lemma block_slots_size: "wfv v w \<Longrightarrow> block_slots (m_size v) = unat (m_size v)"
  by (rule block_slots_small [OF wfv_size_small])

text \<open>
  What a \<^verbatim>\<open>push_back\<close> that returns normally has done: the value is appended, the size is
  one more, and the capacity is the old one, or the one \<^verbatim>\<open>increase_capacity\<close> computed
  when the container was full.
\<close>

definition appended :: "vec \<Rightarrow> 'a \<Rightarrow> 'a world \<Rightarrow> (unit, vec \<times> 'a world) res \<Rightarrow> bool" where
  "appended v val w r =
     (case r of
        Ok _ (v', w') \<Rightarrow>
          m_capacity v' = (if m_size v = m_capacity v then increase_capacity v else m_capacity v) \<and>
          m_size v' = m_size v + 1 \<and> elems v' w' = elems v w @ [val]
      | Throw e s \<Rightarrow> True
      | Fault \<Rightarrow> True)"

lemma push_back_appended_step:
  assumes IH: "\<And>t x s r'. f t x s = Some r' \<Longrightarrow>
        wfw s \<longrightarrow> wfv t s \<longrightarrow> strong_post t s r' \<and> appended t x s r'"
    and body: "(if m_size v \<noteq> m_capacity v then
        Some (case construct_at (vend v) val w of
                Fault \<Rightarrow> Fault
              | Throw e w' \<Rightarrow> Throw e (v, w')
              | Ok _ w' \<Rightarrow> Ok () (v\<lparr>m_size := m_size v + 1\<rparr>, w'))
      else push_back_realloc f v val w) = Some r"
    and wf: "wfw w" "wfv v w"
  shows "appended v val w r"
  using body wf
proof (cases rule: push_back_step_cases)
  case fault
  then show ?thesis by (simp add: appended_def)
next
  case append_throws
  then show ?thesis by (simp add: appended_def)
next
  case (append b)
  let ?n = "unat (m_size v)"
  have "?n < unat (m_capacity v)" using append(7,8) block_slots_le [of "m_capacity v"] by simp
  then have suc: "unat (m_size v + 1) = Suc ?n" using size_t_suc [OF append(1)] by simp
  have "take (Suc ?n) (b[?n := Some val]) = take ?n b @ [Some val]"
    using append(7) by (intro nth_equalityI) (auto simp: nth_append nth_list_update less_Suc_eq)
  then have "map the (take (Suc ?n) (b[?n := Some val])) = map the (take ?n b) @ [val]" by simp
  moreover have "slots v w = b" using append(4) by (simp add: slots_def)
  ultimately have "elems (v\<lparr>m_size := m_size v + 1\<rparr>)
       (w\<lparr>heap := (heap w)(m_data v \<mapsto> b[?n := Some val]),
              throw_countdown := (if throw_countdown w = 0 then 0 else throw_countdown w - 1),
              instances := instances w + 1\<rparr>) = elems v w @ [val]"
    using suc by (simp add: elems_def slots_def)
  then show ?thesis unfolding append(6) appended_def using append(1) by simp
next
  case (throw w')
  then show ?thesis by (simp add: appended_def)
next
  case (call w2 r')
  define t where "t = \<lparr>m_data = next_addr w, m_size = m_size v, m_capacity = increase_capacity v\<rparr>"
  have ih: "strong_post t w2 r'" "appended t val w2 r'"
    using IH [OF call(2)] call(3,4) by (simp_all add: t_def)
  have dlt: "m_data v < next_addr w" by (rule wfv_slots(3) [OF wf])
  show ?thesis
  proof (cases r')
    case Fault
    then show ?thesis using call(10) by (simp add: appended_def)
  next
    case (Throw e s)
    obtain t' w3 where s: "s = (t', w3)" by (cases s)
    show ?thesis unfolding call(10) Throw s appended_def
      by (cases "vector_dtor t' w3") simp_all
  next
    case (Ok u s)
    obtain t' w3 where s: "s = (t', w3)" by (cases s)
    have op: "ok_post t w2 t' w3" using ih(1) Ok s by (simp add: strong_post_def)
    then have d': "m_data t' = next_addr w \<or> Suc (next_addr w) \<le> m_data t'"
      using call(6) by (auto simp: ok_post_def t_def)
    have ap: "m_capacity t' = (if m_size t = m_capacity t then increase_capacity t else m_capacity t)"
      "m_size t' = m_size t + 1" "elems t' w3 = elems t w2 @ [val]"
      using ih(2) Ok s by (simp_all add: appended_def)
    have tsel: "m_capacity t = increase_capacity v" "m_size t = m_size v" by (simp_all add: t_def)
    have cap: "m_capacity t' = increase_capacity v"
    proof (cases "m_size t = m_capacity t")
      case True
      then have "m_capacity t = m_capacity v" using tsel(2) call(1) by simp
      then have "increase_capacity t = increase_capacity v" by (simp only: increase_capacity_def)
      then show ?thesis using ap(1) True by simp
    next
      case False
      then show ?thesis using ap(1) tsel(1) by simp
    qed
    have et: "elems t w2 = elems v w"
      using wfv_slots(1) [OF wf] by (simp add: elems_def slots_def t_def call(5))
    have wfw3: "wfw w3" and n3: "next_addr w2 \<le> next_addr w3"
      and fr: "\<And>a. a \<noteq> m_data t' \<Longrightarrow> heap w3 a = (if a = next_addr w then None else heap w2 a)"
      using op call(6) by (auto simp: ok_post_def t_def)
    have hv: "heap w3 (m_data v) = heap w (m_data v)"
      using fr [of "m_data v"] dlt call(5) d' by auto
    have "wfv v w3" by (rule wfv_frame [OF wf(2) hv]) (use n3 call(6) in simp)
    with wfw3 obtain w4 where w4: "vector_dtor v w3 = Some w4"
      "heap w4 = (heap w3)(m_data v := None)"
      by (rule wfv_dtor)
    have "heap w4 (m_data t') = heap w3 (m_data t')" using w4(2) d' dlt by auto
    then have "elems t' w4 = elems t' w3" by (simp add: elems_def slots_def)
    moreover have "r = Ok () (t', w4)" using call(10) Ok s w4(1) by simp
    ultimately show ?thesis using call(1) cap ap(2,3) et tsel(2)
      by (simp add: appended_def)
  qed
qed

lemma push_back_appended:
  assumes "push_back v val w = Some r" "wfw w" "wfv v w"
  shows "appended v val w r"
proof -
  have "wfw w \<longrightarrow> wfv v w \<longrightarrow> strong_post v w r \<and> appended v val w r"
  proof (rule push_back.raw_induct [where P = "\<lambda>v val w r.
        wfw w \<longrightarrow> wfv v w \<longrightarrow> strong_post v w r \<and> appended v val w r", OF _ assms(1)])
    fix f :: "vec \<Rightarrow> 'a \<Rightarrow> 'a world \<Rightarrow> (unit, vec \<times> 'a world) res option"
      and v val w va
    assume IH: "\<And>t x s r'. f t x s = Some r' \<Longrightarrow>
          wfw s \<longrightarrow> wfv t s \<longrightarrow> strong_post t s r' \<and> appended t x s r'"
      and body: "(if m_size v \<noteq> m_capacity v then
        Some (case construct_at (vend v) val w of
                Fault \<Rightarrow> Fault
              | Throw e w' \<Rightarrow> Throw e (v, w')
              | Ok _ w' \<Rightarrow> Ok () (v\<lparr>m_size := m_size v + 1\<rparr>, w'))
      else push_back_realloc f v val w) = Some va"
    show "wfw w \<longrightarrow> wfv v w \<longrightarrow> strong_post v w va \<and> appended v val w va"
    proof (intro impI conjI)
      assume wf: "wfw w" "wfv v w"
      have IH': "\<And>t x s r'. f t x s = Some r' \<Longrightarrow> wfw s \<longrightarrow> wfv t s \<longrightarrow> strong_post t s r'"
        using IH by blast
      from IH' body wf show "strong_post v w va" by (rule push_back_strong_step)
      from IH body wf show "appended v val w va" by (rule push_back_appended_step)
    qed
  qed
  then show ?thesis using assms by simp
qed

lemma unat_increase_capacity:
  "unat (increase_capacity v)
     = (if m_capacity v = 0 then 4 else unat (m_capacity v) * 3 mod 2 ^ 64 div 2)"
  by (simp add: increase_capacity_def unat_div unat_word_ariths)

text \<open>
  Claim C5. The growth law of \<^verbatim>\<open>push_back\<close>. The capacity \<^verbatim>\<open>increase_capacity\<close> computes
  is \<open>4\<close> for capacity \<open>0\<close> and otherwise \<open>capacity * 3 / 2\<close> rounded down, the
  product taken modulo \<open>2 ^ 64\<close>. On a full, well-formed container every \<^verbatim>\<open>push_back\<close>
  that returns normally leaves exactly this capacity, one more element, and the value
  appended. It does return normally whenever the capacity is not \<open>1\<close>, the byte count
  of the new block does not wrap around, and no copy construction fails (the countdown
  is off or more than \<open>size + 1\<close> copies away). At capacity \<open>1\<close> the law gives \<open>1\<close>
  and the call does not return, which is the subject of claim C4.
\<close>

theorem push_back_growth_law:
  "unat (increase_capacity v)
     = (if m_capacity v = 0 then 4 else unat (m_capacity v) * 3 mod 2 ^ 64 div 2) \<and>
   (wfw w \<and> wfv v w \<and> m_size v = m_capacity v \<longrightarrow>
     (\<forall>v' w'. push_back v val w = Some (Ok () (v', w')) \<longrightarrow>
        m_capacity v' = increase_capacity v \<and> m_size v' = m_size v + 1 \<and>
        elems v' w' = elems v w @ [val]) \<and>
     (m_capacity v \<noteq> 1 \<and> unat (increase_capacity v) * unat sizeof_T < 2 ^ 64 \<and>
      (throw_countdown w = 0 \<or> unat (m_size v) + 1 < unat (throw_countdown w)) \<longrightarrow>
        (\<exists>v' w'. push_back v val w = Some (Ok () (v', w')))))"
proof (intro conjI impI allI)
  show "unat (increase_capacity v)
     = (if m_capacity v = 0 then 4 else unat (m_capacity v) * 3 mod 2 ^ 64 div 2)"
    by (rule unat_increase_capacity)
next
  fix v' w'
  assume a: "wfw w \<and> wfv v w \<and> m_size v = m_capacity v"
    and r: "push_back v val w = Some (Ok () (v', w'))"
  have "appended v val w (Ok () (v', w'))" using r a by (intro push_back_appended) simp_all
  then show "m_capacity v' = increase_capacity v" "m_size v' = m_size v + 1"
    "elems v' w' = elems v w @ [val]"
    using a by (simp_all add: appended_def)
next
  assume a: "wfw w \<and> wfv v w \<and> m_size v = m_capacity v"
    and b: "m_capacity v \<noteq> 1 \<and> unat (increase_capacity v) * unat sizeof_T < 2 ^ 64 \<and>
      (throw_countdown w = 0 \<or> unat (m_size v) + 1 < unat (throw_countdown w))"
  have wf: "wfw w" "wfv v w" and full: "m_size v = m_capacity v" using a by simp_all
  have "unat (m_capacity v) < 2 ^ 61" using wfv_size_small [OF wf(2)] full by simp
  then have "unat (m_capacity v) * 3 < 2 ^ 64" by simp
  with b have gt: "unat (m_capacity v) < unat (increase_capacity v)"
    by (intro increase_capacity_gt) simp_all
  have "unat (increase_capacity v) < 2 ^ 61" using b by (simp add: sizeof_T_def)
  then have "block_slots (increase_capacity v) = unat (increase_capacity v)"
    by (rule block_slots_small)
  then have room: "unat (m_size v) < block_slots (increase_capacity v)" using gt full by simp
  from push_back_grows [OF wf full room, of val] b
  show "\<exists>v' w'. push_back v val w = Some (Ok () (v', w'))" by blast
qed

definition v_full :: vec where
  "v_full = \<lparr>m_data = 1, m_size = 4, m_capacity = 4\<rparr>"

definition w_full :: "nat world" where
  "w_full = \<lparr>heap = (\<lambda>a. None)(1 \<mapsto> [Some 10, Some 20, Some 30, Some 40]), next_addr = 2,
             throw_countdown = 0, instances = 4, dtor_log = []\<rparr>"

definition v_huge :: vec where
  "v_huge = \<lparr>m_data = 1, m_size = 0, m_capacity = 2 ^ 63\<rparr>"

theorem push_back_growth_law_witness:
  "m_capacity v_huge = 2 ^ 63 \<and> unat (increase_capacity v_huge) = 2 ^ 62 \<and>
   unat (increase_capacity v_full) = 6 \<and>
   (\<exists>v' w'. push_back v_full 50 (w_full\<lparr>throw_countdown := 100\<rparr>) = Some (Ok () (v', w')) \<and>
       m_capacity v' = 6 \<and> m_size v' = 5 \<and> elems v' w' = [10, 20, 30, 40, 50])"
proof -
  let ?w = "w_full\<lparr>throw_countdown := 100\<rparr>"
  have h: "wfw ?w \<and> wfv v_full ?w \<and> m_size v_full = m_capacity v_full"
    by (simp add: wfw_def wfv_def block_slots_eq v_full_def w_full_def)
  have g: "m_capacity v_full \<noteq> 1 \<and> unat (increase_capacity v_full) * unat sizeof_T < 2 ^ 64 \<and>
      (throw_countdown ?w = 0 \<or> unat (m_size v_full) + 1 < unat (throw_countdown ?w))"
    by (simp add: v_full_def w_full_def increase_capacity_def sizeof_T_def)
  have e: "elems v_full ?w = [10, 20, 30, 40]"
    by (simp add: elems_def slots_def v_full_def w_full_def)
  have six: "increase_capacity v_full = 6" by (simp add: increase_capacity_def v_full_def)
  note law = push_back_growth_law [of v_full ?w 50]
  from law h g obtain v' w' where r: "push_back v_full 50 ?w = Some (Ok () (v', w'))" by blast
  with law h have "m_capacity v' = increase_capacity v_full" "m_size v' = m_size v_full + 1"
    "elems v' w' = elems v_full ?w @ [50]" by blast+
  then have "m_capacity v' = 6 \<and> m_size v' = 5 \<and> elems v' w' = [10, 20, 30, 40, 50]"
    by (simp add: six e) (simp add: v_full_def)
  moreover have "unat (increase_capacity v_huge) = 2 ^ 62"
    using push_back_growth_law [of v_huge ?w 50] by (simp add: v_huge_def)
  moreover have "unat (increase_capacity v_full) = 6" by (simp add: six)
  ultimately show ?thesis using r by (simp add: v_huge_def)
qed

text \<open>
  Claim C10. The copy constructor makes a tight copy: whenever no copy construction fails
  (the countdown is off, or more than \<open>size\<close> copies away), the new container has the
  source's size as its size and as its capacity, a block of its own, and the source's
  elements in order; the source's block is untouched.
\<close>

theorem copy_constructor_is_tight:
  assumes "wfw w" "wfv other w"
    and "throw_countdown w = 0 \<or> unat (m_size other) < unat (throw_countdown w)"
  shows "\<exists>v' w'. vector_copy other w = Ok v' w' \<and>
      m_capacity v' = m_size other \<and> m_size v' = m_size other \<and>
      elems v' w' = elems other w \<and> wfv v' w' \<and>
      m_data v' \<noteq> m_data other \<and> heap w' (m_data other) = heap w (m_data other)"
proof -
  have self: "unat (m_size other) \<le> unat (m_size other)" by simp
  have dlt: "m_data other < next_addr w" by (rule wfv_slots(3) [OF assms(1,2)])
  from assms(1,2) self show ?thesis
  proof (cases rule: fresh_copy_cases [where nc = "m_size other"])
    case fault
    then show ?thesis using block_slots_size [OF assms(2)] by simp
  next
    case (throw w2)
    then show ?thesis using assms(3) by auto
  next
    case (ok w2)
    define v' where "v' = \<lparr>m_data = next_addr w, m_size = m_size other, m_capacity = m_size other\<rparr>"
    have c: "vector_copy other w = Ok v' w2"
      using ok(1) by (simp add: vector_copy_def new_buffer_fresh v'_def)
    have wf': "wfv v' w2" unfolding v'_def
      using assms(1,2) by (rule new_block_wfv) (simp_all add: ok)
    have "elems v' w2 = elems other w"
      using wfv_slots(1) [OF assms(1,2)] by (simp add: elems_def slots_def v'_def ok(2))
    then show ?thesis using c wf' dlt ok(2) by (auto simp: v'_def)
  qed
qed

definition v_src :: vec where
  "v_src = \<lparr>m_data = 1, m_size = 2, m_capacity = 4\<rparr>"

definition w_src :: "nat world" where
  "w_src = \<lparr>heap = (\<lambda>a. None)(1 \<mapsto> [Some 5, Some 6, None, None]), next_addr = 2,
            throw_countdown = 0, instances = 2, dtor_log = []\<rparr>"

theorem copy_constructor_is_tight_witness:
  "\<exists>v' w'. vector_copy v_src w_src = Ok v' w' \<and> m_capacity v' = 2 \<and> m_size v' = 2 \<and>
      elems v' w' = [5, 6] \<and> m_capacity v_src = 4"
proof -
  have h: "wfw w_src" "wfv v_src w_src"
    "throw_countdown w_src = 0 \<or> unat (m_size v_src) < unat (throw_countdown w_src)"
    by (simp_all add: wfw_def wfv_def block_slots_eq v_src_def w_src_def)
  have e: "elems v_src w_src = [5, 6]"
    by (simp add: elems_def slots_def v_src_def w_src_def)
  from copy_constructor_is_tight [OF h] show ?thesis
    by (simp add: e) (auto simp: v_src_def)
qed

section \<open>\<open>insert\<close>\<close>

lemma push_back_size:
  assumes "push_back v val w = Some (Ok u (v', w'))" "wfw w" "wfv v w"
  shows "m_size v' = m_size v + 1"
proof -
  have "wfw w \<longrightarrow> wfv v w \<longrightarrow> (\<forall>u v' w'. r = Ok u (v', w') \<longrightarrow> m_size v' = m_size v + 1)"
    if "push_back v val w = Some r" for r
  proof (rule push_back.raw_induct [where P = "\<lambda>v val w r. wfw w \<longrightarrow> wfv v w \<longrightarrow>
        (\<forall>u v' w'. r = Ok u (v', w') \<longrightarrow> m_size v' = m_size v + 1)", OF _ that])
    fix f :: "vec \<Rightarrow> 'a \<Rightarrow> 'a world \<Rightarrow> (unit, vec \<times> 'a world) res option"
      and v val w va
    assume IH: "\<And>t x s r'. f t x s = Some r' \<Longrightarrow> wfw s \<longrightarrow> wfv t s \<longrightarrow>
        (\<forall>u v' w'. r' = Ok u (v', w') \<longrightarrow> m_size v' = m_size t + 1)"
      and body: "(if m_size v \<noteq> m_capacity v then
        Some (case construct_at (vend v) val w of
                Fault \<Rightarrow> Fault
              | Throw e w' \<Rightarrow> Throw e (v, w')
              | Ok _ w' \<Rightarrow> Ok () (v\<lparr>m_size := m_size v + 1\<rparr>, w'))
      else push_back_realloc f v val w) = Some va"
    show "wfw w \<longrightarrow> wfv v w \<longrightarrow> (\<forall>u v' w'. va = Ok u (v', w') \<longrightarrow> m_size v' = m_size v + 1)"
    proof (intro impI)
      assume wf: "wfw w" "wfv v w"
      from body wf show "\<forall>u v' w'. va = Ok u (v', w') \<longrightarrow> m_size v' = m_size v + 1"
      proof (cases rule: push_back_step_cases)
        case (call w2 r')
        note ih = IH [OF call(2), rule_format, OF call(3,4)]
        show ?thesis
        proof (cases r')
          case (Ok u s)
          obtain t' w3 where s: "s = (t', w3)" by (cases s)
          have "m_size t' = m_size v + 1" using ih [of u t' w3] Ok s by simp
          then show ?thesis using call(10) Ok s by (auto split: option.splits)
        qed (use call(10) in \<open>auto split: option.splits\<close>)
      qed auto
    qed
  qed
  then show ?thesis using assms by blast
qed

lemma wfv_nonnull: "wfv v w \<Longrightarrow> 0 < unat (m_size v) \<Longrightarrow> m_data v \<noteq> 0"
  by (auto simp: wfv_def split: if_splits)

lemma prefix_block_wfv:
  assumes "wfw w" "wfv v w" "k \<le> unat (m_size v)" "k \<le> block_slots nc" "unat kk = k"
    "heap w' (next_addr w) = Some (take k (slots v w) @ replicate (block_slots nc - k) None)"
    "next_addr w < next_addr w'"
  shows "wfv \<lparr>m_data = next_addr w, m_size = kk, m_capacity = nc\<rparr> w'"
proof -
  note s = wfv_slots [OF assms(1,2)]
  have a0: "next_addr w \<noteq> 0" using assms(1) by (simp add: wfw_def)
  show ?thesis
  proof (rule wfvI [where b = "take k (slots v w) @ replicate (block_slots nc - k) None"])
    show "\<forall>j<length (take k (slots v w) @ replicate (block_slots nc - k) None).
       ((take k (slots v w) @ replicate (block_slots nc - k) None) ! j \<noteq> None)
         = (j < unat (m_size \<lparr>m_data = next_addr w, m_size = kk, m_capacity = nc\<rparr>))"
      using s(1,2) assms(3,4,5) by (auto simp: nth_append)
  qed (use s(1) assms a0 in auto)
qed

lemma size_t_of_nat: "k \<le> unat (n :: size_t) \<Longrightarrow> unat (of_nat k :: size_t) = k"
  by (rule le_unat_uoi)

lemma insert_growth_strong:
  assumes wf: "wfw w" "wfv v w" and full: "m_size v = m_capacity v"
    and k: "k \<le> unat (m_size v)"
    and r: "insert_it v (m_data v, k) val w = Some r"
  shows "strong_post v w r"
proof -
  let ?a = "next_addr w" and ?nc = "increase_capacity v" and ?d = "m_data v"
  let ?kk = "of_nat k :: size_t" and ?m = "of_nat (unat (m_size v) - k) :: size_t"
  have ukk: "unat ?kk = k" using k by (rule size_t_of_nat)
  have um: "unat ?m = unat (m_size v) - k" by (rule size_t_of_nat [of _ "m_size v"]) simp
  have pd1: "ptr_diff (m_data v, k) (m_data v, 0) = Some ?kk"
    by (simp add: ptr_diff_def)
  have pd2: "ptr_diff (m_data v, unat (m_size v)) (m_data v, k) = Some ?m"
    using k by (simp add: ptr_diff_def of_nat_diff)
  have a0: "?a \<noteq> 0" and ha: "heap w ?a = None" using wf(1) by (simp_all add: wfw_def)
  have dlt: "?d < ?a" by (rule wfv_slots(3) [OF wf])
  have kle: "unat ?kk \<le> unat (m_size v)" using k ukk by simp
  note defs = insert_it_def if_P [OF full] new_buffer_fresh vend_def vbegin_def pd1 pd2 swap_vec_eq
  from wf kle show ?thesis
  proof (cases rule: fresh_copy_cases [where nc = ?nc])
    case fault
    then have "r = Fault" using r by (simp add: defs)
    then show ?thesis by (simp add: strong_post_def)
  next
    case (throw w2)
    have "heap w2 ?a = Some (replicate (block_slots ?nc) None)" using throw(2) by simp
    from vector_dtor_block [OF this a0, of 0 ?nc]
    obtain w3 where w3: "vector_dtor \<lparr>m_data = ?a, m_size = 0, m_capacity = ?nc\<rparr> w2 = Some w3"
      "heap w3 = (heap w2)(?a := None)" "next_addr w3 = next_addr w2" by auto
    have "heap w3 = heap w" using w3(2) throw(2) ha by (simp add: fun_upd_idem)
    moreover have "r = Throw CopyFailed (v, w3)"
      using r throw(1) w3(1) by (simp add: defs)
    ultimately show ?thesis using throw(3) w3(3) by (simp add: strong_post_def)
  next
    case (ok w2)
    let ?t = "\<lparr>m_data = ?a, m_size = ?kk, m_capacity = ?nc\<rparr>"
    have wfw2: "wfw w2" using wf(1) ok(2,3) by (auto simp: wfw_def)
    have wft: "wfv ?t w2"
      using wf k _ ukk by (rule prefix_block_wfv) (use ok ukk in simp_all)
    show ?thesis
    proof (cases "deref val w2")
      case None
      then have "r = Fault" using r ok(1) by (simp add: defs)
      then show ?thesis by (simp add: strong_post_def)
    next
      case dv: (Some x)
      note defs = defs dv
      show ?thesis
    proof (cases "push_back ?t x w2")
      case None
      then show ?thesis using r ok(1) by (simp add: defs)
    next
      case (Some r')
      have sp: "strong_post ?t w2 r'" using Some wfw2 wft by (rule push_back_strong)
      show ?thesis
      proof (cases r')
        case Fault
        then have "r = Fault" using r ok(1) Some by (simp add: defs)
        then show ?thesis by (simp add: strong_post_def)
      next
        case (Throw e s)
        obtain t' w3 where s: "s = (t', w3)" by (cases s)
        have e: "e = CopyFailed" and t': "t' = ?t" and h3: "heap w3 = heap w2"
          and n3: "next_addr w2 \<le> next_addr w3"
          using sp Throw s by (simp_all add: strong_post_def)
        have "wfw w3" using wfw2 h3 n3 by (rule wfw_same_heap)
        moreover have "wfv ?t w3" by (rule wfv_frame [OF wft]) (simp_all add: h3 n3)
        ultimately obtain w4 where w4: "vector_dtor ?t w3 = Some w4"
          "heap w4 = (heap w3)(m_data ?t := None)" "next_addr w4 = next_addr w3"
          by (rule wfv_dtor)
        have "heap w4 = heap w" using w4(2) h3 ok(2) ha by (simp add: fun_upd_idem)
        moreover have "r = Throw CopyFailed (v, w4)"
          using r ok(1) Some Throw s e t' w4(1) by (simp add: defs)
        ultimately show ?thesis using w4(3) n3 ok(3) by (simp add: strong_post_def)
      next
        case (Ok u s)
        obtain t' w3 where s: "s = (t', w3)" by (cases s)
        have pb: "push_back ?t x w2 = Some (Ok u (t', w3))" using Some Ok s by simp
        have op: "ok_post ?t w2 t' w3" using sp Ok s by (simp add: strong_post_def)
        then have wfw3: "wfw w3" and wft': "wfv t' w3" and n3: "next_addr w2 \<le> next_addr w3"
          and d': "m_data t' = ?a \<or> Suc ?a \<le> m_data t'"
          and fr: "\<And>x. x \<noteq> m_data t' \<Longrightarrow> heap w3 x = (if x = ?a then None else heap w2 x)"
          using ok(3) by (auto simp: ok_post_def)
        have d'0: "m_data t' \<noteq> 0" and d'd: "m_data t' \<noteq> ?d" and d'a: "?a \<le> m_data t'"
          using d' a0 dlt by auto
        have fr0: "heap w3 x = heap w x" if "x \<noteq> m_data t'" "x \<noteq> ?a" for x
          using fr [OF that(1)] that(2) ok(2) by simp
        have hv3: "heap w3 ?d = heap w ?d" using fr0 [of ?d] d'd dlt by simp
        have wfv3: "wfv v w3" by (rule wfv_frame [OF wf(2) hv3]) (use n3 ok(3) in simp)
        from wfv_block [OF wft' d'0] obtain b' where b': "heap w3 (m_data t') = Some b'"
          "length b' = block_slots (m_capacity t')" "unat (m_size t') \<le> length b'"
          "\<forall>j<length b'. (b' ! j \<noteq> None) = (j < unat (m_size t'))" by blast
        let ?s' = "unat (m_size t')"
        have back_to_w: "h = heap w" if "h = (heap w3)(m_data t' := None)" for h
        proof
          fix x
          show "h x = heap w x"
          proof (cases "x = m_data t'")
            case True
            then have "heap w x = None" using d'a wf(1) by (simp add: wfw_def)
            then show ?thesis using that True by simp
          next
            case False
            then show ?thesis using that fr [OF False] ha ok(2) by auto
          qed
        qed
        show ?thesis
        proof (cases "?m = 0")
          case True
          from wfw3 wfv3 obtain w5 where w5: "vector_dtor v w3 = Some w5"
            "heap w5 = (heap w3)(?d := None)" "next_addr w5 = next_addr w3"
            by (rule wfv_dtor)
          have req: "r = Ok (?a, k) (t', w5)"
            using r ok(1) pb True w5(1) ukk
            by (simp add: defs)
          have "wfw w5" using wfw3 w5(2,3) by (rule wfw_delete)
          moreover have "wfv t' w5" by (rule wfv_frame [OF wft']) (use w5 d'd in auto)
          moreover have "heap w5 x = (if x = ?d then None else heap w x)" if "x \<noteq> m_data t'" for x
            using that w5(2) fr [OF that] ha ok(2) by auto
          ultimately show ?thesis using req d'a n3 ok(3) w5(3)
            by (auto simp: strong_post_def ok_post_def)
        next
          case False
          then have mpos: "0 < unat ?m" by (simp add: unat_gt_0)
          then have "0 < unat (m_size v)" using um by simp
          then have dz: "?d \<noteq> 0" by (rule wfv_nonnull [OF wf(2)])
          from wfv_block [OF wf(2) dz] obtain sb where sb: "heap w ?d = Some sb"
            "length sb = block_slots (m_capacity v)"
            "\<forall>j<length sb. (sb ! j \<noteq> None) = (j < unat (m_size v))" by blast
          have hs: "heap w3 ?d = Some sb" using hv3 sb(1) by simp
          have raw: "raw_from b' ?s' (?s' + unat ?m)" using b'(4) by (auto simp: raw_from_def)
          from b'(1) hs d'd raw show ?thesis
          proof (cases rule: cca_cases [where soff = k])
            case fault
            then have "r = Fault" using r ok(1) pb by (simp add: defs)
            then show ?thesis by (simp add: strong_post_def)
          next
            case (throw w4)
            have "wfw w4" by (rule wfw_same_heap [OF wfw3]) (simp_all add: throw)
            moreover have "wfv t' w4" by (rule wfv_frame [OF wft']) (simp_all add: throw)
            ultimately obtain w5 where w5: "vector_dtor t' w4 = Some w5"
              "heap w5 = (heap w4)(m_data t' := None)" "next_addr w5 = next_addr w4"
              by (rule wfv_dtor)
            have "heap w5 = heap w" by (rule back_to_w) (simp add: w5(2) throw(2))
            moreover have "r = Throw CopyFailed (v, w5)"
              using r ok(1) pb throw(1) w5(1) by (simp add: defs)
            ultimately show ?thesis using w5(3) throw(3) n3 ok(3) by (simp add: strong_post_def)
          next
            case ok4: (ok w4)
            let ?nb = "blit b' ?s' sb k 0 (unat ?m)"
            let ?v' = "t'\<lparr>m_size := m_size t' + ?m\<rparr>"
            have d'lt: "m_data t' < next_addr w3" by (rule wfv_slots(3) [OF wfw3 wft'])
            have wfw4: "wfw w4" using wfw3 ok4(2,3) d'0 d'lt
              by (auto simp: wfw_def)
            have hv4: "heap w4 ?d = heap w ?d" using ok4(2) hv3 d'd by simp
            have wfv4: "wfv v w4" by (rule wfv_frame [OF wf(2) hv4]) (use n3 ok(3) ok4(3) in simp)
            from wfw4 wfv4 obtain w5 where w5: "vector_dtor v w4 = Some w5"
              "heap w5 = (heap w4)(?d := None)" "next_addr w5 = next_addr w4"
              by (rule wfv_dtor)
            have req: "r = Ok (?a, k) (?v', w5)"
              using r ok(1) pb ok4(1) w5(1) ukk
              by (simp add: defs)
            have bound: "?s' + unat ?m \<le> length b'"
              using ok4(6) mpos by (auto simp: cca_pre_def dest!: spec [of _ "unat ?m - 1"])
            have "length b' \<le> unat (m_capacity t')"
              using b'(2) block_slots_le [of "m_capacity t'"] by simp
            then have "length b' < 2 ^ 64"
              using unsigned_less [of "m_capacity t'", where 'a = nat] by simp
            then have "?s' + unat ?m < 2 ^ LENGTH(64)" using bound by simp
            then have usum: "unat (m_size t' + ?m) = ?s' + unat ?m" by (simp only: unat_add_lem)
            have live: "\<forall>j<length ?nb. (?nb ! j \<noteq> None) = (j < ?s' + unat ?m)"
            proof (intro allI impI)
              fix j assume "j < length ?nb"
              then have j: "j < length b'" by simp
              show "(?nb ! j \<noteq> None) = (j < ?s' + unat ?m)"
              proof (cases "?s' \<le> j \<and> j < ?s' + unat ?m")
                case True
                then have "j - ?s' < unat ?m" by auto
                then have "sb ! (k + (j - ?s')) \<noteq> None" using ok4(6) by (simp add: cca_pre_def)
                then show ?thesis using True j by simp
              next
                case False
                then show ?thesis using j b'(4) by auto
              qed
            qed
            have "wfv ?v' w5"
            proof (rule wfvI [where b = ?nb])
              show "heap w5 (m_data ?v') = Some ?nb" using w5(2) ok4(2) d'd by simp
              show "\<forall>j<length ?nb. (?nb ! j \<noteq> None) = (j < unat (m_size ?v'))"
                using live usum by simp
            qed (use b' usum bound d'0 d'lt ok4(3) w5(3) in auto)
            moreover have "wfw w5" using wfw4 w5(2,3) by (rule wfw_delete)
            moreover have "heap w5 x = (if x = ?d then None else heap w x)" if "x \<noteq> m_data t'" for x
              using that w5(2) ok4(2) fr [OF that] ha ok(2) by auto
            ultimately show ?thesis using req d'a n3 ok(3) ok4(3) w5(3)
              by (auto simp: strong_post_def ok_post_def)
          qed
        qed
      qed
    qed
    qed
  qed
qed

section \<open>Swaps and assignments inside a block\<close>

text \<open>
  \<open>touch d w w'\<close>: between \<open>w\<close> and \<open>w'\<close> only values stored in live slots of the block
  \<open>d\<close> have changed; which slots are live is the same, and so is everything else.
\<close>

definition live_map :: "'a option list \<Rightarrow> bool list" where
  "live_map b = map (\<lambda>s. s \<noteq> None) b"

definition touch :: "addr \<Rightarrow> 'a world \<Rightarrow> 'a world \<Rightarrow> bool" where
  "touch d w w' =
     (next_addr w' = next_addr w \<and> (\<forall>a. a \<noteq> d \<longrightarrow> heap w' a = heap w a) \<and>
      map_option live_map (heap w' d) = map_option live_map (heap w d))"

lemma touch_refl [simp]: "touch d w w"
  by (simp add: touch_def)

lemma touch_trans: "touch d w w1 \<Longrightarrow> touch d w1 w2 \<Longrightarrow> touch d w w2"
  by (simp add: touch_def)

lemma live_map_update:
  "i < length b \<Longrightarrow> b ! i \<noteq> None \<Longrightarrow> live_map (b[i := Some x]) = live_map b"
  unfolding live_map_def by (rule nth_equalityI) (auto simp: nth_list_update)

lemma assign_at_touch:
  "assign_at (d, i) x w = Ok u w' \<or> assign_at (d, i) x w = Throw e w' \<Longrightarrow> touch d w w'"
  by (auto simp: assign_at_def load_def counted_assign_def counted_copy_def store_def touch_def
      live_map_update split: option.splits if_splits res.splits)

lemma counted_copy_ctor_touch:
  "counted_copy_ctor a w = Ok t w' \<or> counted_copy_ctor a w = Throw e w' \<Longrightarrow> touch d w w'"
  by (auto simp: counted_copy_ctor_def counted_copy_def touch_def split: if_splits)

lemma counted_dtor_touch [simp]: "touch d w (counted_dtor w)"
  by (simp add: counted_dtor_def touch_def)

lemma swap_at_touch:
  assumes "swap_at (d, i) (d, j) w = Ok u w' \<or> swap_at (d, i) (d, j) w = Throw e w'"
  shows "touch d w w'"
proof -
  from assms obtain a b where ab: "load (d, i) w = Some a" "load (d, j) w = Some b"
    by (auto simp: swap_at_def split: option.splits)
  show ?thesis
  proof (cases "counted_copy_ctor a w")
    case Fault
    then show ?thesis using assms ab by (simp add: swap_at_def)
  next
    case (Throw e1 w1)
    then have "w' = w1" using assms ab by (simp add: swap_at_def)
    then show ?thesis using counted_copy_ctor_touch [of a w _ w1 e1 d] Throw by simp
  next
    case (Ok t w1)
    have t1: "touch d w w1" using counted_copy_ctor_touch [of a w t w1 _ d] Ok by simp
    show ?thesis
    proof (cases "assign_at (d, i) b w1")
      case Fault
      then show ?thesis using assms ab Ok by (simp add: swap_at_def)
    next
      case (Throw e2 w2)
      then have "w' = counted_dtor w2" using assms ab Ok by (simp add: swap_at_def)
      moreover have "touch d w1 w2" using assign_at_touch [of d i b w1 _ w2 e2] Throw by simp
      ultimately show ?thesis using t1 by (simp add: touch_def counted_dtor_def)
    next
      case ok2: (Ok u2 w2)
      have t2: "touch d w1 w2" using assign_at_touch [of d i b w1 u2 w2] ok2 by simp
      show ?thesis
      proof (cases "assign_at (d, j) t w2")
        case Fault
        then show ?thesis using assms ab Ok ok2 by (simp add: swap_at_def)
      next
        case (Throw e3 w3)
        then have "w' = counted_dtor w3" using assms ab Ok ok2 by (simp add: swap_at_def)
        moreover have "touch d w2 w3" using assign_at_touch [of d j t w2 _ w3 e3] Throw by simp
        ultimately show ?thesis using t1 t2 by (simp add: touch_def counted_dtor_def)
      next
        case ok3: (Ok u3 w3)
        then have "w' = counted_dtor w3" using assms ab Ok ok2 by (simp add: swap_at_def)
        moreover have "touch d w2 w3" using assign_at_touch [of d j t w2 u3 w3] ok3 by simp
        ultimately show ?thesis using t1 t2 by (simp add: touch_def counted_dtor_def)
      qed
    qed
  qed
qed

lemma insert_shift_touch:
  "insert_shift (d, i) pos w = Ok u w' \<or> insert_shift (d, i) pos w = Throw e w' \<Longrightarrow> touch d w w'"
proof (induction i arbitrary: w)
  case 0
  then show ?case by (subst (asm) (1 2) insert_shift.simps) (auto split: if_splits)
next
  case (Suc i)
  show ?case
  proof (cases "(d, Suc i) = pos")
    case True
    then show ?thesis using Suc.prems by (subst (asm) (1 2) insert_shift.simps) auto
  next
    case False
    show ?thesis
    proof (cases "swap_at (d, Suc i) (d, i) w")
      case Fault
      then show ?thesis using Suc.prems False
        by (subst (asm) (1 2) insert_shift.simps) auto
    next
      case (Throw e1 w1)
      then have "w' = w1" using Suc.prems False
        by (subst (asm) (1 2) insert_shift.simps) auto
      then show ?thesis using swap_at_touch [of d "Suc i" i w _ w1 e1] Throw by simp
    next
      case (Ok u1 w1)
      then have "insert_shift (d, i) pos w1 = Ok u w' \<or> insert_shift (d, i) pos w1 = Throw e w'"
        using Suc.prems False by (subst (asm) (1 2) insert_shift.simps) auto
      then have "touch d w1 w'" by (rule Suc.IH)
      moreover have "touch d w w1" using swap_at_touch [of d "Suc i" i w u1 w1] Ok by simp
      ultimately show ?thesis by (auto intro: touch_trans)
    qed
  qed
qed

lemma live_map_nth:
  "live_map b' = live_map b \<Longrightarrow> length b' = length b \<and> (\<forall>k<length b. (b' ! k \<noteq> None) = (b ! k \<noteq> None))"
proof -
  assume a: "live_map b' = live_map b"
  then have l: "length b' = length b" by (metis length_map live_map_def)
  have "(b' ! k \<noteq> None) = (b ! k \<noteq> None)" if "k < length b" for k
  proof -
    have "live_map b' ! k = live_map b ! k" using a by simp
    then show ?thesis using that l by (simp add: live_map_def)
  qed
  then show ?thesis using l by simp
qed

lemma wfv_touch:
  assumes "wfv v w" "touch (m_data v) w w'"
  shows "wfv v w'"
proof (cases "m_data v = 0")
  case True
  then show ?thesis using assms(1) by (simp add: wfv_def)
next
  case False
  from wfv_block [OF assms(1) False] obtain b where b: "heap w (m_data v) = Some b"
    "length b = block_slots (m_capacity v)" "unat (m_size v) \<le> length b" "m_data v < next_addr w"
    "\<forall>k<length b. (b ! k \<noteq> None) = (k < unat (m_size v))" by blast
  from assms(2) b(1) obtain b' where b': "heap w' (m_data v) = Some b'" "live_map b' = live_map b"
    by (auto simp: touch_def)
  note n = live_map_nth [OF b'(2)]
  show ?thesis
    by (rule wfvI [OF b'(1)]) (use b n assms(2) False in \<open>auto simp: touch_def\<close>)
qed

lemma ok_post_touch:
  assumes "wfw w" "wfv v w" "touch (m_data v) w w'"
  shows "ok_post v w v w'"
proof -
  have "heap w' 0 = None"
  proof (cases "m_data v = 0")
    case True
    then have "map_option live_map (heap w' 0) = None"
      using assms(1,3) by (simp add: touch_def wfw_def)
    then show ?thesis by simp
  next
    case False
    then show ?thesis using assms(1,3) by (simp add: touch_def wfw_def)
  qed
  moreover have "heap w' a = None" if "next_addr w \<le> a" for a
    using that assms(1,3) wfv_slots(3) [OF assms(1,2)] by (auto simp: touch_def wfw_def)
  ultimately have "wfw w'" using assms(1,3) by (simp add: wfw_def touch_def)
  then show ?thesis using wfv_touch [OF assms(2,3)] assms(3)
    by (auto simp: ok_post_def touch_def)
qed

lemma ok_post_trans_touch:
  assumes "ok_post v w v1 w1" "touch (m_data v1) w1 w2"
  shows "ok_post v w v1 w2"
proof -
  have wf1: "wfw w1" "wfv v1 w1" using assms(1) by (simp_all add: ok_post_def)
  have op: "ok_post v1 w1 v1 w2" using wf1 assms(2) by (rule ok_post_touch)
  show ?thesis using assms(1) op assms(2) by (auto simp: ok_post_def touch_def)
qed

lemma insert_no_growth_basic:
  assumes wf: "wfw w" "wfv v w" and nf: "m_size v \<noteq> m_capacity v"
    and r: "insert_it v (m_data v, k) val w = Some r"
  shows "basic_post v w r"
proof (cases "load (back_ptr v) w")
  case None
  then have "r = Fault" using r nf by (simp add: insert_it_def)
  then show ?thesis by (simp add: basic_post_def)
next
  case (Some bk)
  have "\<exists>r1. push_back v bk w = Some r1"
    using nf by (subst push_back.simps) simp
  then obtain r1 where r1: "push_back v bk w = Some r1" ..
  have sp: "basic_post v w r1"
    using wf push_back_strong [OF r1 wf] by (rule strong_imp_basic)
  show ?thesis
  proof (cases r1)
    case Fault
    then have "r = Fault" using r nf Some r1 by (simp add: insert_it_def)
    then show ?thesis by (simp add: basic_post_def)
  next
    case (Throw e s)
    obtain v1 w1 where s: "s = (v1, w1)" by (cases s)
    have "r = Throw e (v1, w1)" using r nf Some r1 Throw s by (simp add: insert_it_def)
    then show ?thesis using sp Throw s by (simp add: basic_post_def)
  next
    case (Ok u s)
    obtain v1 w1 where s: "s = (v1, w1)" by (cases s)
    have op: "ok_post v w v1 w1" using sp Ok s by (simp add: basic_post_def)
    have d1: "fst (vend v1) = m_data v1" by (simp add: vend_def)
    show ?thesis
    proof (cases "snd (vend v1) = 0")
      case True
      then have "r = Fault" using r nf Some r1 Ok s by (simp add: insert_it_def)
      then show ?thesis by (simp add: basic_post_def)
    next
      case False
      show ?thesis
      proof (cases "insert_shift (m_data v1, snd (vend v1) - 1) (m_data v, k) w1")
        case Fault
        then have "r = Fault" using r nf Some r1 Ok s False d1 by (simp add: insert_it_def)
        then show ?thesis by (simp add: basic_post_def)
      next
        case (Throw e2 w2)
        then have "r = Throw e2 (v1, w2)"
          using r nf Some r1 Ok s False d1 by (simp add: insert_it_def)
        moreover have "touch (m_data v1) w1 w2"
          by (rule insert_shift_touch [OF disjI2 [OF Throw]])
        ultimately show ?thesis using ok_post_trans_touch [OF op] by (simp add: basic_post_def)
      next
        case ok2: (Ok u2 w2)
        have t2: "touch (m_data v1) w1 w2"
          by (rule insert_shift_touch [OF disjI1 [OF ok2]])
        have op2: "ok_post v w v1 w2" by (rule ok_post_trans_touch [OF op t2])
        have dd: "m_data v1 = m_data v"
          using r1 Ok s nf by (subst (asm) push_back.simps) (auto split: res.splits)
        show ?thesis
        proof (cases "deref val w2")
          case None
          then have "r = Fault" using r nf Some r1 Ok s False d1 ok2 by (simp add: insert_it_def)
          then show ?thesis by (simp add: basic_post_def)
        next
          case dv: (Some x)
          show ?thesis
        proof (cases "assign_at (m_data v, k) x w2")
          case Fault
          then have "r = Fault" using r nf Some r1 Ok s False d1 ok2 dv by (simp add: insert_it_def)
          then show ?thesis by (simp add: basic_post_def)
        next
          case (Throw e3 w3)
          then have "r = Throw e3 (v1, w3)"
            using r nf Some r1 Ok s False d1 ok2 dv by (simp add: insert_it_def)
          moreover have "touch (m_data v1) w2 w3"
            using assign_at_touch [OF disjI2 [OF Throw]] dd by simp
          ultimately show ?thesis using ok_post_trans_touch [OF op2] by (simp add: basic_post_def)
        next
          case ok3: (Ok u3 w3)
          then have "r = Ok (m_data v, k) (v1, w3)"
            using r nf Some r1 Ok s False d1 ok2 dv by (simp add: insert_it_def)
          moreover have "touch (m_data v1) w2 w3"
            using assign_at_touch [OF disjI1 [OF ok3]] dd by simp
          ultimately show ?thesis using ok_post_trans_touch [OF op2] by (simp add: basic_post_def)
        qed
        qed
      qed
    qed
  qed
qed

section \<open>\<open>erase\<close>\<close>

lemma erase_shift_post:
  "case erase_shift (d, f) (d, l) (d, n) w of
     Fault \<Rightarrow> True
   | Throw ex w' \<Rightarrow> touch d w w'
   | Ok pq w' \<Rightarrow> touch d w w' \<and> l \<le> n \<and> pq = ((d, f + (n - l)), (d, n))"
proof (induction "n - l" arbitrary: f l w)
  case 0
  show ?case
  proof (cases "l = n")
    case True
    then show ?thesis by (subst erase_shift.simps) simp
  next
    case False
    then show ?thesis using 0 by (subst erase_shift.simps) simp
  qed
next
  case (Suc m)
  then have lt: "l < n" by simp
  show ?case
  proof (cases "swap_at (d, f) (d, l) w")
    case Fault
    then show ?thesis using lt by (subst erase_shift.simps) simp
  next
    case (Throw ex w1)
    have "touch d w w1" by (rule swap_at_touch [OF disjI2 [OF Throw]])
    then show ?thesis using lt Throw by (subst erase_shift.simps) simp
  next
    case (Ok u w1)
    have t1: "touch d w w1" by (rule swap_at_touch [OF disjI1 [OF Ok]])
    have m: "m = n - Suc l" using Suc.hyps(2) by simp
    have step: "erase_shift (d, f) (d, l) (d, n) w = erase_shift (d, Suc f) (d, Suc l) (d, n) w1"
      using lt Ok by (subst erase_shift.simps) (simp add: ptr_add_def)
    show ?thesis
      using Suc.hyps(1) [OF m, where f = "Suc f" and w = w1] t1 lt unfolding step
      by (auto split: res.splits intro: touch_trans)
  qed
qed

lemma wipe_step:
  "p < length b \<Longrightarrow> p < q \<Longrightarrow> wipe (b[p := None]) (Suc p) q = wipe b p q"
  by (rule nth_equalityI) (auto simp: nth_list_update)

lemma erase_destroy_spec:
  assumes "heap w d = Some b" "p \<le> q"
  shows "case erase_destroy (d, p) (d, q) w of
      None \<Rightarrow> \<not> (\<forall>k. p \<le> k \<and> k < q \<longrightarrow> k < length b \<and> b ! k \<noteq> None)
    | Some w' \<Rightarrow> heap w' = (heap w)(d \<mapsto> wipe b p q) \<and> next_addr w' = next_addr w \<and>
        throw_countdown w' = throw_countdown w"
  using assms
proof (induction "q - p" arbitrary: p w b)
  case 0
  then have pq: "q = p" by simp
  have "wipe b p p = b" by (rule nth_equalityI) auto
  then show ?case using "0.prems"(1) unfolding pq
    by (subst erase_destroy.simps) (simp add: fun_upd_idem)
next
  case (Suc m)
  then have lt: "p < q" by simp
  show ?case
  proof (cases "p < length b \<and> b ! p \<noteq> None")
    case False
    then have "erase_destroy (d, p) (d, q) w = None"
      using lt Suc.prems by (subst erase_destroy.simps) (auto simp: destroy_at_eq)
    moreover have "\<not> (\<forall>k. p \<le> k \<and> k < q \<longrightarrow> k < length b \<and> b ! k \<noteq> None)"
      using False lt by (metis order_refl)
    ultimately show ?thesis by simp
  next
    case True
    define w1 where "w1 = w\<lparr>heap := (heap w)(d \<mapsto> b[p := None]), instances := instances w - 1,
                   dtor_log := dtor_log w @ [(d, p)]\<rparr>"
    have step: "erase_destroy (d, p) (d, q) w = erase_destroy (d, Suc p) (d, q) w1"
      using lt True Suc.prems
      by (subst erase_destroy.simps) (auto simp: destroy_at_eq w1_def ptr_add_def)
    have h1: "heap w1 d = Some (b[p := None])" by (simp add: w1_def)
    have m: "m = q - Suc p" using Suc.hyps(2) by simp
    have le: "Suc p \<le> q" using lt by simp
    have all_eq: "(\<forall>k. p \<le> k \<and> k < q \<longrightarrow> k < length b \<and> b ! k \<noteq> None)
        = (\<forall>k. Suc p \<le> k \<and> k < q \<longrightarrow> k < length (b[p := None]) \<and> b[p := None] ! k \<noteq> None)"
      unfolding all_from_Suc [OF lt] using True by (auto simp: nth_list_update)
    have ws: "wipe (b[p := None]) (Suc p) q = wipe b p q"
      using True lt by (simp add: wipe_step)
    show ?thesis
      using Suc.hyps(1) [OF m h1 le] True unfolding step all_eq ws
      by (auto split: option.splits simp: w1_def)
  qed
qed

lemma erase_basic:
  assumes wf: "wfw w" "wfv v w" and ij: "i \<le> j" "j \<le> unat (m_size v)"
  shows "basic_post v w (erase v (m_data v, i) (m_data v, j) w)"
proof -
  let ?d = "m_data v" and ?n = "unat (m_size v)"
  let ?p = "i + (?n - j)"
  note sp = erase_shift_post [where d = ?d and f = i and l = j and n = ?n and w = w]
  show ?thesis
  proof (cases "erase_shift (?d, i) (?d, j) (?d, ?n) w")
    case Fault
    then show ?thesis by (simp add: erase_def vend_def basic_post_def)
  next
    case (Throw ex w1)
    then have "touch ?d w w1" using sp by simp
    then have "ok_post v w v w1" by (rule ok_post_touch [OF wf])
    then show ?thesis using Throw by (simp add: erase_def vend_def basic_post_def)
  next
    case (Ok pq w1)
    then have t1: "touch ?d w w1" and pq: "pq = ((?d, ?p), (?d, ?n))" using sp by simp_all
    have op1: "ok_post v w v w1" using wf t1 by (rule ok_post_touch)
    then have wfw1: "wfw w1" and wfv1: "wfv v w1" by (simp_all add: ok_post_def)
    have ple: "?p \<le> ?n" using ij by simp
    have up: "unat (of_nat ?p :: size_t) = ?p" using ple by (rule le_unat_uoi)
    have pd: "ptr_diff (?d, ?p) (vbegin v) = Some (of_nat ?p)"
      by (simp add: ptr_diff_def vbegin_def)
    show ?thesis
    proof (cases "?d = 0")
      case True
      then have z: "m_size v = 0" using wfv_null [OF wf(2)] by simp
      then have "erase v (?d, i) (?d, j) w = Ok (?d, i) (v\<lparr>m_size := 0\<rparr>, w1)"
        using Ok pq pd ij by (simp add: erase_def vend_def erase_destroy.simps)
      moreover have "v\<lparr>m_size := 0\<rparr> = v" using z by (cases v) simp
      ultimately show ?thesis using op1 by (simp add: basic_post_def)
    next
      case False
      from wfv_block [OF wfv1 False] obtain b1 where b1: "heap w1 ?d = Some b1"
        "length b1 = block_slots (m_capacity v)" "?n \<le> length b1" "?d < next_addr w1"
        "\<forall>k<length b1. (b1 ! k \<noteq> None) = (k < ?n)" by blast
      have live: "\<forall>k. ?p \<le> k \<and> k < ?n \<longrightarrow> k < length b1 \<and> b1 ! k \<noteq> None"
        using b1 by auto
      from erase_destroy_spec [OF b1(1) ple] live
      obtain w2 where w2: "erase_destroy (?d, ?p) (?d, ?n) w1 = Some w2"
        "heap w2 = (heap w1)(?d \<mapsto> wipe b1 ?p ?n)" "next_addr w2 = next_addr w1"
        by (cases "erase_destroy (?d, ?p) (?d, ?n) w1") auto
      let ?v' = "v\<lparr>m_size := of_nat ?p\<rparr>"
      have e: "erase v (?d, i) (?d, j) w = Ok (?d, i) (?v', w2)"
        using Ok pq pd w2(1) by (simp add: erase_def vend_def)
      have "wfv ?v' w2"
      proof (rule wfvI [where b = "wipe b1 ?p ?n"])
        show "\<forall>k<length (wipe b1 ?p ?n). (wipe b1 ?p ?n ! k \<noteq> None) = (k < unat (m_size ?v'))"
          using b1(5) up ple by auto
      qed (use b1 w2 up ple False in auto)
      moreover have "wfw w2" using wfw1 w2(2,3) b1(4) False by (auto simp: wfw_def)
      moreover have "heap w2 x = heap w x" if "x \<noteq> ?d" for x
        using that w2(2) t1 by (simp add: touch_def)
      ultimately have "ok_post v w ?v' w2" using w2(3) t1 by (simp add: ok_post_def touch_def)
      then show ?thesis using e by (simp add: basic_post_def)
    qed
  qed
qed

lemma countdown_three:
  fixes tc :: size_t
  assumes "3 < unat tc"
  shows "tc \<noteq> 0" "tc - 1 \<noteq> 0" "tc - 1 - 1 \<noteq> 0" "tc - 1 - 1 - 1 \<noteq> 0"
    "unat (tc - 3) = unat tc - 3"
proof -
  show z: "tc \<noteq> 0" using assms by auto
  have u1: "unat (tc - 1) = unat tc - 1" by (rule unat_minus_one [OF z])
  then show z1: "tc - 1 \<noteq> 0" using assms by auto
  have u2: "unat (tc - 1 - 1) = unat tc - 2" using unat_minus_one [OF z1] u1 by simp
  then show z2: "tc - 1 - 1 \<noteq> 0" using assms by auto
  have u3: "unat (tc - 1 - 1 - 1) = unat tc - 3" using unat_minus_one [OF z2] u2 by simp
  then show "tc - 1 - 1 - 1 \<noteq> 0" using assms by auto
  have "tc - 1 - 1 - 1 = tc - 3" by simp
  then show "unat (tc - 3) = unat tc - 3" using u3 by simp
qed

lemma swap_at_ok:
  assumes "heap w d = Some b" "p < length b" "q < length b" "b ! p \<noteq> None" "b ! q \<noteq> None"
    "throw_countdown w = 0 \<or> 3 < unat (throw_countdown w)"
  shows "\<exists>w'. swap_at (d, p) (d, q) w = Ok () w' \<and>
    heap w' = (heap w)(d \<mapsto> b[p := b ! q, q := b ! p]) \<and>
    next_addr w' = next_addr w \<and>
    throw_countdown w' = (if throw_countdown w = 0 then 0 else throw_countdown w - 3)"
proof (cases "throw_countdown w = 0")
  case True
  then show ?thesis using assms(1-5)
    by (auto simp: swap_at_def load_def assign_at_def counted_assign_def counted_copy_ctor_def
        counted_copy_def counted_dtor_def store_def nth_list_update)
next
  case False
  then have "3 < unat (throw_countdown w)" using assms(6) by simp
  note c = countdown_three [OF this]
  show ?thesis using assms(1-5) c(1-4)
    by (auto simp: swap_at_def load_def assign_at_def counted_assign_def counted_copy_ctor_def
        counted_copy_def counted_dtor_def store_def nth_list_update)
qed

lemma countdown_step:
  fixes tc :: size_t
  assumes "tc = 0 \<or> 3 * Suc m < unat tc"
  shows "tc = 0 \<or> 3 < unat tc"
    and "(if tc = 0 then 0 else tc - 3) = 0 \<or> 3 * m < unat (if tc = 0 then 0 else tc - 3)"
proof -
  show "tc = 0 \<or> 3 < unat tc" using assms by auto
  show "(if tc = 0 then 0 else tc - 3) = 0 \<or> 3 * m < unat (if tc = 0 then 0 else tc - 3)"
  proof (cases "tc = 0")
    case True
    then show ?thesis by simp
  next
    case False
    then have lt: "3 * Suc m < unat tc" using assms by simp
    then have "3 < unat tc" by simp
    then have "unat (tc - 3) = unat tc - 3" by (rule countdown_three(5))
    moreover have "3 * m < unat tc - 3" using lt by simp
    ultimately have "3 * m < unat (tc - 3)" by (simp only:)
    then show ?thesis using False by (simp only: if_False) simp
  qed
qed

text \<open>
  The shift of \<^verbatim>\<open>erase\<close> when no copy fails: each of its \<open>n - l\<close> swaps makes three
  copies.
\<close>

lemma erase_shift_ok:
  assumes "heap w d = Some b" "f \<le> l" "l \<le> n" "n \<le> length b" "\<forall>k<n. b ! k \<noteq> None"
    "throw_countdown w = 0 \<or> 3 * (n - l) < unat (throw_countdown w)"
  shows "\<exists>w' b'. erase_shift (d, f) (d, l) (d, n) w = Ok ((d, f + (n - l)), (d, n)) w' \<and>
    heap w' = (heap w)(d \<mapsto> b') \<and> length b' = length b \<and>
    (\<forall>k. k < f \<or> n \<le> k \<longrightarrow> b' ! k = b ! k) \<and>
    (\<forall>k. f \<le> k \<and> k < f + (n - l) \<longrightarrow> b' ! k = b ! (k + (l - f))) \<and>
    (\<forall>k<n. b' ! k \<noteq> None) \<and>
    next_addr w' = next_addr w"
  using assms
proof (induction "n - l" arbitrary: f l w b)
  case 0
  then have ln: "l = n" by simp
  have "erase_shift (d, f) (d, l) (d, n) w = Ok ((d, f + (n - l)), (d, n)) w"
    unfolding ln by (subst erase_shift.simps) simp
  moreover have "heap w = (heap w)(d \<mapsto> b)" using "0.prems"(1) by (simp add: fun_upd_idem)
  ultimately show ?case using "0.prems"(1-5) ln
    by (intro exI [of _ w] exI [of _ b]) simp
next
  case (Suc m)
  then have lt: "l < n" by simp
  define b1 where "b1 = b[f := b ! l, l := b ! f]"
  have fl: "f < length b" "l < length b" "b ! f \<noteq> None" "b ! l \<noteq> None"
    using lt Suc.prems by auto
  have tc: "throw_countdown w = 0 \<or> 3 * Suc m < unat (throw_countdown w)"
    using Suc.prems(6) Suc.hyps(2) by simp
  from swap_at_ok [OF Suc.prems(1) fl countdown_step(1) [OF tc]]
  obtain w1 where w1: "swap_at (d, f) (d, l) w = Ok () w1" "heap w1 = (heap w)(d \<mapsto> b1)"
    "next_addr w1 = next_addr w"
    "throw_countdown w1 = (if throw_countdown w = 0 then 0 else throw_countdown w - 3)"
    by (auto simp: b1_def)
  have step: "erase_shift (d, f) (d, l) (d, n) w = erase_shift (d, Suc f) (d, Suc l) (d, n) w1"
    using lt w1(1) by (subst erase_shift.simps) (simp add: ptr_add_def)
  have m: "m = n - Suc l" using Suc.hyps(2) by simp
  have tc1: "throw_countdown w1 = 0 \<or> 3 * (n - Suc l) < unat (throw_countdown w1)"
    unfolding w1(4) m [symmetric] by (rule countdown_step(2) [OF tc])
  have h1: "heap w1 d = Some b1" by (simp add: w1(2))
  have live1: "\<forall>k<n. b1 ! k \<noteq> None"
    using Suc.prems(4,5) fl lt by (auto simp: b1_def nth_list_update)
  have len1: "n \<le> length b1" using Suc.prems(4) by (simp add: b1_def)
  have sf: "Suc f \<le> Suc l" and sl: "Suc l \<le> n" using Suc.prems(2) lt by simp_all
  from Suc.hyps(1) [OF m h1 sf sl len1 live1 tc1]
  obtain w' b' where r: "erase_shift (d, Suc f) (d, Suc l) (d, n) w1
        = Ok ((d, Suc f + (n - Suc l)), (d, n)) w'"
    "heap w' = (heap w1)(d \<mapsto> b')" "length b' = length b1"
    "\<forall>k. k < Suc f \<or> n \<le> k \<longrightarrow> b' ! k = b1 ! k"
    "\<forall>k. Suc f \<le> k \<and> k < Suc f + (n - Suc l) \<longrightarrow> b' ! k = b1 ! (k + (Suc l - Suc f))"
    "\<forall>k<n. b' ! k \<noteq> None" "next_addr w' = next_addr w1"
    by (elim exE conjE)
  have a: "b' ! k = b ! k" if "k < f \<or> n \<le> k" for k
  proof -
    have "b' ! k = b1 ! k" using r(4) that by auto
    moreover have "k \<noteq> f" "k \<noteq> l" using that lt Suc.prems(2) by auto
    ultimately show ?thesis by (simp add: b1_def)
  qed
  have c: "b' ! k = b ! (k + (l - f))" if "f \<le> k \<and> k < f + (n - l)" for k
  proof (cases "k = f")
    case True
    then have "b' ! k = b1 ! f" using r(4) by simp
    also have "\<dots> = b ! l" using fl by (cases "f = l") (simp_all add: b1_def)
    finally show ?thesis using True Suc.prems(2) by simp
  next
    case False
    then have k: "Suc f \<le> k" "k < Suc f + (n - Suc l)" using that lt by auto
    then have "b' ! k = b1 ! (k + (l - f))" using r(5) by simp
    moreover have "k + (l - f) \<noteq> f" "k + (l - f) \<noteq> l" using k Suc.prems(2) by auto
    ultimately show ?thesis by (simp add: b1_def)
  qed
  have E: "erase_shift (d, f) (d, l) (d, n) w = Ok ((d, f + (n - l)), (d, n)) w'"
    using step r(1) lt by simp
  have H: "heap w' = (heap w)(d \<mapsto> b')" using r(2) w1(2) by simp
  have L: "length b' = length b" using r(3) by (simp add: b1_def)
  have A: "\<forall>k. k < f \<or> n \<le> k \<longrightarrow> b' ! k = b ! k" using a by blast
  have C: "\<forall>k. f \<le> k \<and> k < f + (n - l) \<longrightarrow> b' ! k = b ! (k + (l - f))" using c by blast
  have N: "next_addr w' = next_addr w" using r(7) w1(3) by simp
  show ?case
    by (rule exI [of _ w'], rule exI [of _ b'], intro conjI) (rule E H L A C r(6) N)+
qed

text \<open>
  Claim C9, amended. \<^verbatim>\<open>erase(first, last)\<close> with \<open>first = begin() + i\<close>,
  \<open>last = begin() + j\<close> and \<open>i \<le> j \<le> size\<close>, on a well-formed container. The shift
  swaps each of the \<open>size - j\<close> elements behind the range with three copies. When
  none of these copies fails (the countdown is off or more than \<open>3 * (size - j)\<close>
  copies away), the call returns \<open>begin() + i\<close>, which is \<open>end()\<close> when the range
  reached the end; the elements are the old ones without those at the indices
  \<open>[i, j)\<close>, in their old order; the size has dropped by \<open>j - i\<close>; capacity and data
  pointer are the old ones.
\<close>

theorem erase_range:
  assumes "wfw w" "wfv v w" "i \<le> j" "j \<le> unat (m_size v)"
    and "throw_countdown w = 0 \<or> 3 * (unat (m_size v) - j) < unat (throw_countdown w)"
  shows "\<exists>v' w'. erase v (ptr_add (vbegin v) i) (ptr_add (vbegin v) j) w
        = Ok (ptr_add (vbegin v) i) (v', w') \<and>
      (j = unat (m_size v) \<longrightarrow> ptr_add (vbegin v) i = vend v') \<and>
      elems v' w' = take i (elems v w) @ drop j (elems v w) \<and>
      unat (m_size v') = unat (m_size v) - (j - i) \<and>
      m_capacity v' = m_capacity v \<and> m_data v' = m_data v \<and> wfv v' w'"
proof -
  let ?d = "m_data v" and ?n = "unat (m_size v)"
  let ?p = "i + (?n - j)"
  have pa: "ptr_add (vbegin v) i = (?d, i)" "ptr_add (vbegin v) j = (?d, j)"
    by (simp_all add: ptr_add_def vbegin_def)
  have ple: "?p \<le> ?n" using assms(3,4) by simp
  have up: "unat (of_nat ?p :: size_t) = ?p" using ple by (rule le_unat_uoi)
  have pd: "ptr_diff (?d, ?p) (vbegin v) = Some (of_nat ?p)"
    by (simp add: ptr_diff_def vbegin_def)
  show ?thesis
  proof (cases "?d = 0")
    case True
    then have z: "m_size v = 0" using wfv_null [OF assms(2)] by simp
    then have ij: "i = 0" "j = 0" using assms(3,4) by simp_all
    have "erase v (?d, i) (?d, j) w = Ok (?d, i) (v\<lparr>m_size := 0\<rparr>, w)"
      using z ij by (simp add: erase_def vend_def erase_shift.simps erase_destroy.simps pd [unfolded ij z, simplified])
    moreover have "v\<lparr>m_size := 0\<rparr> = v" using z by (cases v) simp
    ultimately show ?thesis using z ij assms(2) unfolding pa
      by (simp add: vend_def elems_def)
  next
    case False
    from wfv_block [OF assms(2) False] obtain b where b: "heap w ?d = Some b"
      "length b = block_slots (m_capacity v)" "?n \<le> length b" "?d < next_addr w"
      "\<forall>k<length b. (b ! k \<noteq> None) = (k < ?n)" "slots v w = b" by blast
    have nlen: "?n \<le> length b" by (rule b(3))
    have live: "\<forall>k<?n. b ! k \<noteq> None" using b(5) nlen by auto
    from erase_shift_ok [OF b(1) assms(3,4) nlen live assms(5)]
    obtain w1 b' where sh: "erase_shift (?d, i) (?d, j) (?d, ?n) w = Ok ((?d, ?p), (?d, ?n)) w1"
      and b': "heap w1 = (heap w)(?d \<mapsto> b')" "length b' = length b"
        "\<forall>k. k < i \<or> ?n \<le> k \<longrightarrow> b' ! k = b ! k"
        "\<forall>k. i \<le> k \<and> k < ?p \<longrightarrow> b' ! k = b ! (k + (j - i))"
        "\<forall>k<?n. b' ! k \<noteq> None" "next_addr w1 = next_addr w"
      by (elim exE conjE)
    have h1: "heap w1 ?d = Some b'" by (simp add: b'(1))
    have live': "\<forall>k. ?p \<le> k \<and> k < ?n \<longrightarrow> k < length b' \<and> b' ! k \<noteq> None"
      using b'(2,5) nlen by auto
    from erase_destroy_spec [OF h1 ple] live'
    obtain w2 where w2: "erase_destroy (?d, ?p) (?d, ?n) w1 = Some w2"
      "heap w2 = (heap w1)(?d \<mapsto> wipe b' ?p ?n)" "next_addr w2 = next_addr w1"
      by (cases "erase_destroy (?d, ?p) (?d, ?n) w1") auto
    let ?v' = "v\<lparr>m_size := of_nat ?p\<rparr>"
    have e: "erase v (?d, i) (?d, j) w = Ok (?d, i) (?v', w2)"
      using sh pd w2(1) by (simp add: erase_def vend_def)
    have wf': "wfv ?v' w2"
    proof (rule wfvI [where b = "wipe b' ?p ?n"])
      have "(wipe b' ?p ?n ! k \<noteq> None) = (k < ?p)" if "k < length b'" for k
      proof (cases "k < ?n")
        case True
        then show ?thesis using that b'(5) by auto
      next
        case False
        then have "b' ! k = b ! k" using b'(3) by simp
        then show ?thesis using that False b(5) b'(2) ple by auto
      qed
      then show "\<forall>k<length (wipe b' ?p ?n). (wipe b' ?p ?n ! k \<noteq> None) = (k < unat (m_size ?v'))"
        using up by simp
    qed (use b b' w2 up ple False in auto)
    have sl: "slots ?v' w2 = wipe b' ?p ?n" by (simp add: slots_def w2(2))
    have "map the (take ?p (wipe b' ?p ?n)) = take i (map the (take ?n b)) @ drop j (map the (take ?n b))"
    proof (rule nth_equalityI)
      show "length (map the (take ?p (wipe b' ?p ?n)))
          = length (take i (map the (take ?n b)) @ drop j (map the (take ?n b)))"
        using ple nlen b'(2) assms(3,4) by simp
    next
      fix k assume "k < length (map the (take ?p (wipe b' ?p ?n)))"
      then have k: "k < ?p" by simp
      have lhs: "map the (take ?p (wipe b' ?p ?n)) ! k = the (b' ! k)"
        using k ple nlen b'(2) by simp
      show "map the (take ?p (wipe b' ?p ?n)) ! k
          = (take i (map the (take ?n b)) @ drop j (map the (take ?n b))) ! k"
      proof (cases "k < i")
        case True
        then have "b' ! k = b ! k" using b'(3) by simp
        then show ?thesis unfolding lhs using True assms(3,4) nlen
          by (simp add: nth_append)
      next
        case False
        then have "b' ! k = b ! (k + (j - i))" using b'(4) k by simp
        moreover have "k + (j - i) = j + (k - i)" using False assms(3) by simp
        ultimately show ?thesis unfolding lhs using False k assms(3,4) nlen
          by (simp add: nth_append)
      qed
    qed
    moreover have up': "unat (m_size ?v') = ?p" using up by simp
    ultimately have el: "elems ?v' w2 = take i (elems v w) @ drop j (elems v w)"
      unfolding elems_def sl b(6) up' by simp
    have sz: "unat (m_size ?v') = ?n - (j - i)" using up assms(3,4) by simp
    have ui: "unat (of_nat i :: size_t) = i"
      by (rule le_unat_uoi [of i "m_size v"]) (use assms(3,4) in simp)
    have en: "j = ?n \<longrightarrow> (?d, i) = vend ?v'" using ui by (simp add: vend_def)
    have "erase v (?d, i) (?d, j) w = Ok (?d, i) (?v', w2) \<and>
      (j = ?n \<longrightarrow> (?d, i) = vend ?v') \<and>
      elems ?v' w2 = take i (elems v w) @ drop j (elems v w) \<and>
      unat (m_size ?v') = ?n - (j - i) \<and>
      m_capacity ?v' = m_capacity v \<and> m_data ?v' = m_data v \<and> wfv ?v' w2"
      using e en el sz wf' by simp
    then show ?thesis unfolding pa by blast
  qed
qed

theorem erase_range_witness:
  "\<exists>v' w'. erase v_full (ptr_add (vbegin v_full) 1) (ptr_add (vbegin v_full) 3)
         (w_full\<lparr>throw_countdown := 4\<rparr>)
       = Ok (1, 1) (v', w') \<and>
     elems v' w' = [10, 40] \<and> unat (m_size v') = 2 \<and> m_capacity v' = 4 \<and> m_data v' = 1"
proof -
  let ?w = "w_full\<lparr>throw_countdown := 4\<rparr>"
  have h: "wfw ?w" "wfv v_full ?w" "(1 :: nat) \<le> 3" "3 \<le> unat (m_size v_full)"
    "throw_countdown ?w = 0 \<or> 3 * (unat (m_size v_full) - 3) < unat (throw_countdown ?w)"
    by (simp_all add: wfw_def wfv_def block_slots_eq v_full_def w_full_def)
  have e: "elems v_full ?w = [10, 20, 30, 40]"
    by (simp add: elems_def slots_def v_full_def w_full_def)
  have sel: "m_data v_full = 1" "m_capacity v_full = 4" "unat (m_size v_full) = 4"
    by (simp_all add: v_full_def)
  from erase_range [OF h] show ?thesis
    by (auto simp: e sel ptr_add_def vbegin_def)
qed

text \<open>
  Claim C9 as stated, with a copy failure pending: on the container \<open>[10, 20, 30, 40]\<close>
  with the countdown at \<open>3\<close>, \<^verbatim>\<open>erase(begin() + 1, begin() + 2)\<close> throws in the third
  copy of its first swap and leaves four elements, \<open>[10, 30, 30, 40]\<close>: nothing is
  removed, and the value \<open>20\<close> is lost.
\<close>

theorem erase_fails_when_a_copy_fails:
  "wfw (w_full\<lparr>throw_countdown := 3\<rparr>) \<and> wfv v_full (w_full\<lparr>throw_countdown := 3\<rparr>) \<and>
   elems v_full (w_full\<lparr>throw_countdown := 3\<rparr>) = [10, 20, 30, 40] \<and>
   (\<exists>w'. erase v_full (ptr_add (vbegin v_full) 1) (ptr_add (vbegin v_full) 2)
          (w_full\<lparr>throw_countdown := 3\<rparr>) = Throw CopyFailed (v_full, w') \<and>
      elems v_full w' = [10, 30, 30, 40])"
  by (simp add: wfw_def wfv_def block_slots_eq elems_def slots_def erase_def erase_shift.simps
      eval_defs v_full_def w_full_def)

text \<open>
  Claim C1. Strong exception safety of the operations that change the capacity. From a
  well-formed state, when \<^verbatim>\<open>reserve\<close>, \<^verbatim>\<open>shrink_to_fit\<close>, \<^verbatim>\<open>push_back\<close> on a full
  container or \<^verbatim>\<open>insert\<close> on a full container ends by throwing, the exception is the
  copy failure, and the container has the size, the capacity, the data pointer and the
  elements it had before the call; the heap as a whole is the one before the call, so
  the block built aside has been released. The value \<^verbatim>\<open>insert\<close> is given may be a
  temporary or an element of the container. A call whose byte count wraps around, as
  \<^verbatim>\<open>reserve(2^61)\<close> on a container with elements, writes past its new block before any
  copy can throw: it ends in a fault, not by throwing (\<open>reserve_wrapped_byte_count\<close>).
\<close>

theorem strong_exception_safety:
  assumes "wfw w" "wfv v w"
    and "reserve v n w = Throw e (v', w') \<or>
         shrink_to_fit v w = Throw e (v', w') \<or>
         (m_size v = m_capacity v \<and> push_back v val w = Some (Throw e (v', w'))) \<or>
         (m_size v = m_capacity v \<and> k \<le> unat (m_size v) \<and>
          insert_it v (ptr_add (vbegin v) k) ref w = Some (Throw e (v', w')))"
  shows "e = CopyFailed \<and> m_size v' = m_size v \<and> m_capacity v' = m_capacity v \<and>
      m_data v' = m_data v \<and> elems v' w' = elems v w \<and> heap w' = heap w"
proof -
  have "strong_post v w (Throw e (v', w') :: (unit, vec \<times> 'a world) res)"
  proof -
    consider (a) "reserve v n w = Throw e (v', w')"
      | (b) "shrink_to_fit v w = Throw e (v', w')"
      | (c) "push_back v val w = Some (Throw e (v', w'))"
      | (d) "m_size v = m_capacity v" "k \<le> unat (m_size v)"
          "insert_it v (m_data v, k) ref w = Some (Throw e (v', w'))"
      using assms(3) by (auto simp: ptr_add_def vbegin_def)
    then show ?thesis
    proof cases
      case a
      then show ?thesis using reserve_strong [OF assms(1,2), of n] by simp
    next
      case b
      then show ?thesis using shrink_to_fit_strong [OF assms(1,2)] by simp
    next
      case c
      then show ?thesis using push_back_strong [OF c assms(1,2)] by simp
    next
      case d
      have "strong_post v w (Throw e (v', w') :: (ptr, vec \<times> 'a world) res)"
        by (rule insert_growth_strong [OF assms(1,2) d])
      then show ?thesis by (simp add: strong_post_def)
    qed
  qed
  then show ?thesis by (simp add: strong_post_def elems_def slots_def)
qed

definition v_two :: vec where
  "v_two = \<lparr>m_data = 1, m_size = 2, m_capacity = 2\<rparr>"

definition w_two :: "nat world" where
  "w_two = \<lparr>heap = (\<lambda>a. None)(1 \<mapsto> [Some 10, Some 20]), next_addr = 2,
            throw_countdown = 2, instances = 2, dtor_log = []\<rparr>"

definition v_spare :: vec where
  "v_spare = \<lparr>m_data = 1, m_size = 2, m_capacity = 4\<rparr>"

definition w_spare :: "nat world" where
  "w_spare = \<lparr>heap = (\<lambda>a. None)(1 \<mapsto> [Some 10, Some 20, None, None]), next_addr = 2,
              throw_countdown = 2, instances = 2, dtor_log = []\<rparr>"

lemma reserve_wrapped_byte_count: "reserve v_two (2 ^ 61) w_two = Fault"
  by (simp add: eval_defs v_two_def w_two_def)

lemma reserve_two_throws: "\<exists>w'. reserve v_two 10 w_two = Throw CopyFailed (v_two, w')"
  by (simp add: eval_defs v_two_def w_two_def)

lemma shrink_spare_throws: "\<exists>w'. shrink_to_fit v_spare w_spare = Throw CopyFailed (v_spare, w')"
  by (simp add: eval_defs v_spare_def w_spare_def)

lemma push_back_two_throws: "\<exists>w'. push_back v_two 50 w_two = Some (Throw CopyFailed (v_two, w'))"
  by (simp add: eval_defs v_two_def w_two_def)

lemma insert_two_throws:
  "\<exists>w'. insert_it v_two (ptr_add (vbegin v_two) 2) (Temporary 50) w_two
     = Some (Throw CopyFailed (v_two, w'))"
  by (simp add: insert_it_def eval_defs v_two_def w_two_def)

theorem strong_exception_safety_witness:
  "(\<exists>w'. reserve v_two 10 w_two = Throw CopyFailed (v_two, w') \<and>
       elems v_two w' = [10, 20] \<and> heap w' = heap w_two) \<and>
   (\<exists>w'. shrink_to_fit v_spare w_spare = Throw CopyFailed (v_spare, w') \<and>
       elems v_spare w' = [10, 20] \<and> heap w' = heap w_spare) \<and>
   (\<exists>w'. push_back v_two 50 w_two = Some (Throw CopyFailed (v_two, w')) \<and>
       elems v_two w' = [10, 20] \<and> heap w' = heap w_two) \<and>
   (\<exists>w'. insert_it v_two (ptr_add (vbegin v_two) 2) (Temporary 50) w_two
          = Some (Throw CopyFailed (v_two, w')) \<and>
       elems v_two w' = [10, 20] \<and> heap w' = heap w_two)"
proof -
  have h2: "wfw w_two" "wfv v_two w_two" and h3: "wfw w_spare" "wfv v_spare w_spare"
    by (simp_all add: wfw_def wfv_def block_slots_eq v_two_def w_two_def v_spare_def w_spare_def)
  have full: "m_size v_two = m_capacity v_two" "2 \<le> unat (m_size v_two)"
    by (simp_all add: v_two_def)
  have e2: "elems v_two w_two = [10, 20]" and e3: "elems v_spare w_spare = [10, 20]"
    by (simp_all add: elems_def slots_def v_two_def w_two_def v_spare_def w_spare_def)
  from reserve_two_throws obtain w1 where w1: "reserve v_two 10 w_two = Throw CopyFailed (v_two, w1)" ..
  from shrink_spare_throws obtain w2 where
    w2: "shrink_to_fit v_spare w_spare = Throw CopyFailed (v_spare, w2)" ..
  from push_back_two_throws obtain w3 where
    w3: "push_back v_two 50 w_two = Some (Throw CopyFailed (v_two, w3))" ..
  from insert_two_throws obtain w4 where
    w4: "insert_it v_two (ptr_add (vbegin v_two) 2) (Temporary 50) w_two
      = Some (Throw CopyFailed (v_two, w4))" ..
  have a: "elems v_two w1 = [10, 20] \<and> heap w1 = heap w_two"
    using strong_exception_safety [OF h2 disjI1 [OF w1]] by (simp add: e2)
  have b: "elems v_spare w2 = [10, 20] \<and> heap w2 = heap w_spare"
    using strong_exception_safety [OF h3 disjI2 [OF disjI1 [OF w2]]] by (simp add: e3)
  have c: "elems v_two w3 = [10, 20] \<and> heap w3 = heap w_two"
    using strong_exception_safety [OF h2 disjI2 [OF disjI2 [OF disjI1 [OF conjI [OF full(1) w3]]]]]
    by (simp add: e2)
  have d: "elems v_two w4 = [10, 20] \<and> heap w4 = heap w_two"
    using strong_exception_safety [OF h2
        disjI2 [OF disjI2 [OF disjI2 [OF conjI [OF full(1) conjI [OF full(2) w4]]]]]]
    by (simp add: e2)
  show ?thesis using w1 w2 w3 w4 a b c d by blast
qed

section \<open>The other operations keep the containers well-formed\<close>

lemma basic_final:
  "basic_post v w r \<Longrightarrow> final r = Some (v', w') \<Longrightarrow> ok_post v w v' w'"
  by (cases r) (auto simp: basic_post_def)

lemma ok_post_block:
  assumes "wfw w" "wfv v w" "m_data v \<noteq> 0" "heap w' = (heap w)(m_data v \<mapsto> b')"
    "next_addr w' = next_addr w" "wfv v' w'" "m_data v' = m_data v"
  shows "ok_post v w v' w'"
proof -
  have "m_data v < next_addr w" by (rule wfv_slots(3) [OF assms(1,2)])
  then have "wfw w'" using assms(1,3,4,5) by (auto simp: wfw_def)
  then show ?thesis using assms(4,5,6,7) by (simp add: ok_post_def)
qed

lemma clear_post:
  assumes "wfw w" "wfv v w"
  shows "basic_post v w (clear v w)"
proof (cases "m_data v = 0")
  case True
  then have z: "m_size v = 0" using wfv_null [OF assms(2)] by simp
  then have e: "v\<lparr>m_size := 0\<rparr> = v" by (cases v) simp
  have "clear v w = Ok () (v, w)" using z e by (simp add: clear_def)
  then show ?thesis using assms by (simp add: basic_post_def ok_post_refl)
next
  case False
  let ?d = "m_data v" and ?n = "unat (m_size v)"
  from wfv_block [OF assms(2) False] obtain b where b: "heap w ?d = Some b"
    "length b = block_slots (m_capacity v)" "?n \<le> length b" "?d < next_addr w"
    "\<forall>k<length b. (b ! k \<noteq> None) = (k < ?n)" "slots v w = b" by blast
  have z: "unat (0 :: size_t) \<le> ?n" by simp
  have live: "\<forall>k. unat (0 :: size_t) \<le> k \<and> k < ?n \<longrightarrow> 0 + k < length b \<and> b ! (0 + k) \<noteq> None"
    using b(2,3,5) by auto
  obtain w1 where w1: "destroy_all_loop (?d, 0) 0 (m_size v) w = Some w1"
    and w1eq: "w1 = w\<lparr>heap := (heap w)(?d \<mapsto> wipe b (0 + unat (0::size_t)) (0 + ?n)),
               instances := instances w - (m_size v - 0),
               dtor_log := dtor_log w @ map (\<lambda>k. (?d, 0 + k)) [unat (0::size_t)..<?n]\<rparr>"
    using destroy_all_loop_spec [OF b(1) z, where doff = 0] live
    by (cases "destroy_all_loop (?d, 0) 0 (m_size v) w") auto
  have h1: "heap w1 = (heap w)(?d \<mapsto> wipe b 0 ?n)" "next_addr w1 = next_addr w"
    by (simp_all add: w1eq)
  let ?v' = "v\<lparr>m_size := 0\<rparr>"
  have c: "clear v w = Ok () (?v', w1)" using w1 by (simp add: clear_def destroy_all_def)
  have "wfv ?v' w1"
  proof (rule wfvI [where b = "wipe b 0 ?n"])
    show "\<forall>k<length (wipe b 0 ?n). (wipe b 0 ?n ! k \<noteq> None) = (k < unat (m_size ?v'))"
      using b(5) by auto
  qed (use b h1 False in auto)
  then have "ok_post v w ?v' w1"
    by (intro ok_post_block [OF assms False h1]) simp_all
  then show ?thesis using c by (simp add: basic_post_def)
qed

lemma pop_back_post:
  assumes "wfw w" "wfv v w"
  shows "basic_post v w (pop_back v w)"
proof (cases "m_size v = 0")
  case True
  then show ?thesis by (simp add: pop_back_def basic_post_def)
next
  case nz: False
  let ?d = "m_data v" and ?n = "unat (m_size v)"
  have pos: "0 < ?n" using nz by (simp add: unat_gt_0)
  have dz: "?d \<noteq> 0" by (rule wfv_nonnull [OF assms(2) pos])
  from wfv_block [OF assms(2) dz] obtain b where b: "heap w ?d = Some b"
    "length b = block_slots (m_capacity v)" "?n \<le> length b" "?d < next_addr w"
    "\<forall>k<length b. (b ! k \<noteq> None) = (k < ?n)" "slots v w = b" by blast
  have pr: "unat (m_size v - 1) = ?n - 1" by (rule size_t_pred [OF nz])
  have lt: "?n - 1 < length b" "b ! (?n - 1) \<noteq> None" using pos b(2,3,5) by auto
  define w1 where "w1 = w\<lparr>heap := (heap w)(?d \<mapsto> b[?n - 1 := None]), instances := instances w - 1,
                   dtor_log := dtor_log w @ [(?d, ?n - 1)]\<rparr>"
  have d: "destroy_at (back_ptr v) w = Some w1"
    using lt by (simp add: back_ptr_def pr destroy_at_eq [OF b(1)] w1_def)
  have h1: "heap w1 = (heap w)(?d \<mapsto> b[?n - 1 := None])" "next_addr w1 = next_addr w"
    by (simp_all add: w1_def)
  let ?v' = "v\<lparr>m_size := m_size v - 1\<rparr>"
  have c: "pop_back v w = Ok () (?v', w1)" using nz d by (simp add: pop_back_def)
  have "wfv ?v' w1"
  proof (rule wfvI [where b = "b[?n - 1 := None]"])
    have "(b[?n - 1 := None] ! k \<noteq> None) = (k < ?n - 1)" if "k < length b" for k
    proof (cases "k = ?n - 1")
      case True
      then show ?thesis using that by simp
    next
      case False
      then have "(b[?n - 1 := None] ! k \<noteq> None) = (k < ?n)" using b(5) that by simp
      then show ?thesis using False by auto
    qed
    then show "\<forall>k<length (b[?n - 1 := None]). (b[?n - 1 := None] ! k \<noteq> None) = (k < unat (m_size ?v'))"
      by (simp add: pr)
  qed (use b h1 dz pr in auto)
  then have "ok_post v w ?v' w1"
    by (intro ok_post_block [OF assms dz h1]) simp_all
  then show ?thesis using c by (simp add: basic_post_def)
qed

lemma vector_copy_post:
  assumes "wfw w" "wfv other w"
  shows "case vector_copy other w of
      Fault \<Rightarrow> True
    | Throw e w' \<Rightarrow> heap w' = heap w \<and> next_addr w \<le> next_addr w'
    | Ok v' w' \<Rightarrow> ok_post vector_ctor w v' w' \<and> m_data v' = next_addr w"
proof -
  let ?nc = "m_size other"
  have self: "unat (m_size other) \<le> unat (m_size other)" by simp
  have a0: "next_addr w \<noteq> 0" and ha: "heap w (next_addr w) = None" and h0: "heap w 0 = None"
    using assms(1) by (simp_all add: wfw_def)
  from assms(1,2) self show ?thesis
  proof (cases rule: fresh_copy_cases [where nc = ?nc])
    case fault
    then show ?thesis by (simp add: vector_copy_def new_buffer_fresh)
  next
    case (throw w2)
    have "heap w2 (next_addr w) = Some (replicate (block_slots ?nc) None)" using throw(2) by simp
    from vector_dtor_block [OF this a0, of 0 ?nc]
    obtain w3 where w3: "vector_dtor \<lparr>m_data = next_addr w, m_size = 0, m_capacity = ?nc\<rparr> w2 = Some w3"
      "heap w3 = (heap w2)(next_addr w := None)" "next_addr w3 = next_addr w2" by auto
    have "heap w3 = heap w" using w3(2) throw(2) ha by (simp add: fun_upd_idem)
    moreover have "vector_copy other w = Throw CopyFailed w3"
      using throw(1) w3(1) by (simp add: vector_copy_def new_buffer_fresh)
    ultimately show ?thesis using w3(3) throw(3) by simp
  next
    case (ok w2)
    define v' where "v' = \<lparr>m_data = next_addr w, m_size = m_size other, m_capacity = m_size other\<rparr>"
    have c: "vector_copy other w = Ok v' w2"
      using ok(1) by (simp add: vector_copy_def new_buffer_fresh v'_def)
    have wf': "wfv v' w2" unfolding v'_def
      using assms(1,2) by (rule new_block_wfv) (simp_all add: ok)
    have "wfw w2" using assms(1) ok(2,3) by (auto simp: wfw_def)
    then have "ok_post vector_ctor w v' w2"
      using wf' ok(2,3) h0 by (simp add: ok_post_def v'_def vector_ctor_def)
    then show ?thesis using c by (simp add: v'_def)
  qed
qed

lemma assign_post:
  assumes "wfw w" "wfv this w" "wfv other w"
  shows "basic_post this w (assign this other w)"
proof -
  note vc = vector_copy_post [OF assms(1,3)]
  have h0: "heap w 0 = None" using assms(1) by (simp add: wfw_def)
  have dlt: "m_data this < next_addr w" by (rule wfv_slots(3) [OF assms(1,2)])
  show ?thesis
  proof (cases "vector_copy other w")
    case Fault
    then show ?thesis by (simp add: assign_def basic_post_def)
  next
    case (Throw e w1)
    then have s: "heap w1 = heap w" "next_addr w \<le> next_addr w1" using vc by simp_all
    have "wfw w1" by (rule wfw_same_heap [OF assms(1) s])
    moreover have "wfv this w1" by (rule wfv_frame [OF assms(2) _ s(2)]) (simp add: s(1))
    ultimately have "ok_post this w this w1" using s by (simp add: ok_post_def)
    then show ?thesis using Throw by (simp add: assign_def basic_post_def)
  next
    case (Ok copy w1)
    then have op: "ok_post vector_ctor w copy w1" and dc: "m_data copy = next_addr w"
      using vc by simp_all
    have wf1: "wfw w1" "wfv copy w1" "next_addr w \<le> next_addr w1"
      and fr: "\<forall>a. a \<noteq> m_data copy \<longrightarrow> heap w1 a = heap w a"
      using op h0 by (auto simp: ok_post_def vector_ctor_def)
    have ne: "m_data this \<noteq> m_data copy" using dlt dc by simp
    have wft: "wfv this w1" by (rule wfv_frame [OF assms(2) _ wf1(3)]) (use fr ne in simp)
    from wfv_dtor [OF wf1(1) wft] obtain w2 where w2: "vector_dtor this w1 = Some w2"
      "heap w2 = (heap w1)(m_data this := None)" "next_addr w2 = next_addr w1" by blast
    have a: "assign this other w = Ok () (copy, w2)"
      using Ok w2(1) by (simp add: assign_def swap_vec_eq)
    have "wfw w2" by (rule wfw_delete [OF wf1(1) w2(2,3)])
    moreover have "wfv copy w2"
      by (rule wfv_frame [OF wf1(2)]) (use w2 ne in simp_all)
    ultimately have "ok_post this w copy w2"
      using wf1(3) w2 fr dc by (simp add: ok_post_def)
    then show ?thesis using a by (simp add: basic_post_def)
  qed
qed

lemma run_call_post:
  assumes "wfw w" "wfv v w" "run_call c v w = Some (v', w')"
  shows "ok_post v w v' w'"
proof (cases c)
  case (Reserve n)
  have "basic_post v w (reserve v n w)"
    by (rule strong_imp_basic [OF assms(1,2) reserve_strong [OF assms(1,2)]])
  then show ?thesis using assms(3) Reserve by (auto intro: basic_final)
next
  case ShrinkToFit
  have "basic_post v w (shrink_to_fit v w)"
    by (rule strong_imp_basic [OF assms(1,2) shrink_to_fit_strong [OF assms(1,2)]])
  then show ?thesis using assms(3) ShrinkToFit by (auto intro: basic_final)
next
  case Clear
  then show ?thesis using assms(3) clear_post [OF assms(1,2)] by (auto intro: basic_final)
next
  case (PushBack x)
  then obtain r where r: "push_back v x w = Some r" "final r = Some (v', w')"
    using assms(3) by (auto simp: bind_eq_Some_conv)
  have "basic_post v w r"
    by (rule strong_imp_basic [OF assms(1,2) push_back_strong [OF r(1) assms(1,2)]])
  then show ?thesis using r(2) by (rule basic_final)
next
  case PopBack
  then show ?thesis using assms(3) pop_back_post [OF assms(1,2)] by (auto intro: basic_final)
next
  case (Insert k x)
  then have k: "k \<le> unat (m_size v)" using assms(3) by (simp split: if_splits)
  then obtain r where r: "insert_it v (m_data v, k) x w = Some r" "final r = Some (v', w')"
    using assms(3) Insert by (auto simp: bind_eq_Some_conv ptr_add_def vbegin_def)
  have "basic_post v w r"
  proof (cases "m_size v = m_capacity v")
    case True
    show ?thesis
      by (rule strong_imp_basic [OF assms(1,2) insert_growth_strong [OF assms(1,2) True k r(1)]])
  next
    case False
    show ?thesis by (rule insert_no_growth_basic [OF assms(1,2) False r(1)])
  qed
  then show ?thesis using r(2) by (rule basic_final)
next
  case (Erase i j)
  then have ij: "i \<le> j" "j \<le> unat (m_size v)" using assms(3) by (simp_all split: if_splits)
  have "basic_post v w (erase v (m_data v, i) (m_data v, j) w)"
    by (rule erase_basic [OF assms(1,2) ij])
  then show ?thesis using assms(3) Erase ij
    by (auto simp: ptr_add_def vbegin_def intro: basic_final)
next
  case (EraseAt i)
  then have ij: "i \<le> Suc i" "Suc i \<le> unat (m_size v)" using assms(3) by (simp_all split: if_splits)
  have "basic_post v w (erase v (m_data v, i) (m_data v, Suc i) w)"
    by (rule erase_basic [OF assms(1,2) ij])
  then show ?thesis using assms(3) EraseAt ij
    by (auto simp: erase_at_def ptr_add_def vbegin_def intro: basic_final)
qed

section \<open>Every reachable state is well formed\<close>

text \<open>
  A configuration is in order when its world is well formed, every container in it is
  well formed, and no two containers share a block.
\<close>

definition state_ok :: "'a config \<Rightarrow> bool" where
  "state_ok c =
     (wfw (snd c) \<and> (\<forall>i<length (fst c). wfv (fst c ! i) (snd c)) \<and>
      (\<forall>i<length (fst c). \<forall>j<length (fst c).
         i \<noteq> j \<longrightarrow> m_data (fst c ! i) \<noteq> 0 \<longrightarrow> m_data (fst c ! i) \<noteq> m_data (fst c ! j)))"

lemma state_okI:
  assumes "wfw w" "\<And>i. i < length vs \<Longrightarrow> wfv (vs ! i) w"
    "\<And>i j. i < length vs \<Longrightarrow> j < length vs \<Longrightarrow> i \<noteq> j \<Longrightarrow> m_data (vs ! i) \<noteq> 0 \<Longrightarrow>
       m_data (vs ! i) \<noteq> m_data (vs ! j)"
  shows "state_ok (vs, w)"
  using assms by (simp add: state_ok_def)

lemma state_okD:
  assumes "state_ok (vs, w)"
  shows "wfw w" and "\<And>i. i < length vs \<Longrightarrow> wfv (vs ! i) w"
    and "\<And>i j. i < length vs \<Longrightarrow> j < length vs \<Longrightarrow> i \<noteq> j \<Longrightarrow> m_data (vs ! i) \<noteq> 0 \<Longrightarrow>
       m_data (vs ! i) \<noteq> m_data (vs ! j)"
  using assms by (simp_all add: state_ok_def)

lemma other_unchanged:
  assumes "wfw w" "wfv u w" "ok_post v w v' w'" "m_data u \<noteq> 0 \<longrightarrow> m_data u \<noteq> m_data v"
  shows "heap w' (m_data u) = heap w (m_data u)" and "m_data u \<noteq> 0 \<longrightarrow> m_data u \<noteq> m_data v'"
proof -
  have wfw': "wfw w'" and d': "m_data v' = m_data v \<or> next_addr w \<le> m_data v'"
    and fr: "\<And>a. a \<noteq> m_data v' \<Longrightarrow> heap w' a = (if a = m_data v then None else heap w a)"
    using assms(3) by (simp_all add: ok_post_def)
  have lt: "m_data u < next_addr w" by (rule wfv_slots(3) [OF assms(1,2)])
  show ne: "m_data u \<noteq> 0 \<longrightarrow> m_data u \<noteq> m_data v'" using d' lt assms(4) by auto
  show "heap w' (m_data u) = heap w (m_data u)"
  proof (cases "m_data u = 0")
    case True
    then show ?thesis using assms(1) wfw' by (simp add: wfw_def)
  next
    case False
    then show ?thesis using fr [of "m_data u"] ne assms(4) by simp
  qed
qed

lemma state_ok_update:
  assumes "state_ok (vs, w)" "i < length vs" "ok_post (vs ! i) w v' w'"
  shows "state_ok (vs[i := v'], w')"
proof (rule state_okI)
  note ok = state_okD [OF assms(1)]
  have n: "next_addr w \<le> next_addr w'" using assms(3) by (simp add: ok_post_def)
  have other: "heap w' (m_data (vs ! k)) = heap w (m_data (vs ! k))"
      "m_data (vs ! k) \<noteq> 0 \<longrightarrow> m_data (vs ! k) \<noteq> m_data v'"
    if "k < length vs" "k \<noteq> i" for k
  proof -
    have "m_data (vs ! k) \<noteq> 0 \<longrightarrow> m_data (vs ! k) \<noteq> m_data (vs ! i)"
      using ok(3) [OF that(1) assms(2) that(2)] by simp
    from other_unchanged [OF ok(1) ok(2) [OF that(1)] assms(3) this]
    show "heap w' (m_data (vs ! k)) = heap w (m_data (vs ! k))"
      "m_data (vs ! k) \<noteq> 0 \<longrightarrow> m_data (vs ! k) \<noteq> m_data v'" by simp_all
  qed
  show "wfw w'" using assms(3) by (simp add: ok_post_def)
  show "wfv (vs[i := v'] ! k) w'" if "k < length (vs[i := v'])" for k
  proof (cases "k = i")
    case True
    then show ?thesis using assms(2,3) by (simp add: ok_post_def)
  next
    case False
    have k: "k < length vs" using that by simp
    have "wfv (vs ! k) w'" by (rule wfv_frame [OF ok(2) [OF k] other(1) [OF k False] n])
    then show ?thesis using False by simp
  qed
  show "m_data (vs[i := v'] ! a) \<noteq> m_data (vs[i := v'] ! b)"
    if "a < length (vs[i := v'])" "b < length (vs[i := v'])" "a \<noteq> b"
      "m_data (vs[i := v'] ! a) \<noteq> 0" for a b
  proof -
    have ab: "a < length vs" "b < length vs" using that by simp_all
    show ?thesis
    proof (cases "a = i")
      case True
      then have bi: "b \<noteq> i" using that(3) by simp
      have nz: "m_data v' \<noteq> 0" using that(4) True assms(2) by simp
      have "m_data (vs ! b) \<noteq> m_data v'"
        using other(2) [OF ab(2) bi] nz by (cases "m_data (vs ! b) = 0") simp_all
      then show ?thesis using True bi assms(2) by auto
    next
      case False
      then have nz: "m_data (vs ! a) \<noteq> 0" using that(4) by simp
      show ?thesis
      proof (cases "b = i")
        case True
        then show ?thesis using other(2) [OF ab(1) False] nz False assms(2) by simp
      next
        case bi: False
        then show ?thesis using ok(3) [OF ab that(3) nz] False by simp
      qed
    qed
  qed
qed

lemma state_ok_snoc_null:
  assumes "state_ok (vs, w)"
  shows "state_ok (vs @ [vector_ctor], w)"
proof (rule state_okI)
  note ok = state_okD [OF assms]
  show "wfw w" by (rule ok(1))
  show "wfv ((vs @ [vector_ctor]) ! i) w" if "i < length (vs @ [vector_ctor])" for i
    using that ok(2) [of i] by (cases "i < length vs") (simp_all add: nth_append wfv_def vector_ctor_def)
  show "m_data ((vs @ [vector_ctor]) ! i) \<noteq> m_data ((vs @ [vector_ctor]) ! j)"
    if "i < length (vs @ [vector_ctor])" "j < length (vs @ [vector_ctor])" "i \<noteq> j"
      "m_data ((vs @ [vector_ctor]) ! i) \<noteq> 0" for i j
  proof (cases "i < length vs")
    case True
    show ?thesis
    proof (cases "j < length vs")
      case j: True
      then show ?thesis using ok(3) [OF True j that(3)] that(4) True by (simp add: nth_append)
    next
      case False
      then have "j = length vs" using that(2) by simp
      then show ?thesis using that(4) True by (simp add: nth_append vector_ctor_def)
    qed
  next
    case False
    then show ?thesis using that(1,4) by (simp add: nth_append vector_ctor_def)
  qed
qed

lemma state_ok_same_heap:
  assumes "state_ok (vs, w)" "heap w' = heap w" "next_addr w \<le> next_addr w'"
  shows "state_ok (vs, w')"
proof (rule state_okI)
  note ok = state_okD [OF assms(1)]
  show "wfw w'" by (rule wfw_same_heap [OF ok(1) assms(2,3)])
  show "wfv (vs ! i) w'" if "i < length vs" for i
    by (rule wfv_frame [OF ok(2) [OF that] _ assms(3)]) (simp add: assms(2))
  show "m_data (vs ! i) \<noteq> m_data (vs ! j)"
    if "i < length vs" "j < length vs" "i \<noteq> j" "m_data (vs ! i) \<noteq> 0" for i j
    using that by (rule ok(3))
qed

lemma state_ok_sub:
  assumes "state_ok (vs, w)"
    and "\<And>k. k < length us \<Longrightarrow> p k < length vs \<and> us ! k = vs ! p k"
    and "\<And>k l. k < length us \<Longrightarrow> l < length us \<Longrightarrow> k \<noteq> l \<Longrightarrow> p k \<noteq> p l"
  shows "state_ok (us, w)"
proof (rule state_okI)
  note ok = state_okD [OF assms(1)]
  show "wfw w" by (rule ok(1))
  show "wfv (us ! i) w" if "i < length us" for i
    using ok(2) [of "p i"] assms(2) [OF that] by simp
  show "m_data (us ! i) \<noteq> m_data (us ! j)"
    if "i < length us" "j < length us" "i \<noteq> j" "m_data (us ! i) \<noteq> 0" for i j
    using ok(3) [of "p i" "p j"] assms(2) [OF that(1)] assms(2) [OF that(2)]
      assms(3) [OF that(1,2,3)] that(4) by simp
qed

lemma state_ok_delete:
  assumes "state_ok (us, w)" "heap w' = (heap w)(d := None)" "next_addr w' = next_addr w"
    and "\<And>k. k < length us \<Longrightarrow> m_data (us ! k) \<noteq> 0 \<Longrightarrow> m_data (us ! k) \<noteq> d"
  shows "state_ok (us, w')"
proof (rule state_okI)
  note ok = state_okD [OF assms(1)]
  show "wfw w'" by (rule wfw_delete [OF ok(1) assms(2,3)])
  show "wfv (us ! i) w'" if "i < length us" for i
  proof (rule wfv_frame [OF ok(2) [OF that]])
    show "heap w' (m_data (us ! i)) = heap w (m_data (us ! i))"
      using assms(4) [OF that] ok(1) by (cases "m_data (us ! i) = 0") (simp_all add: assms(2) wfw_def)
    show "next_addr w \<le> next_addr w'" by (simp add: assms(3))
  qed
  show "m_data (us ! i) \<noteq> m_data (us ! j)"
    if "i < length us" "j < length us" "i \<noteq> j" "m_data (us ! i) \<noteq> 0" for i j
    using that by (rule ok(3))
qed

lemma state_ok_destruct:
  assumes "state_ok (vs, w)" "i < length vs" "vector_dtor (vs ! i) w = Some w'"
  shows "state_ok (take i vs @ drop (Suc i) vs, w')"
proof -
  note ok = state_okD [OF assms(1)]
  let ?us = "take i vs @ drop (Suc i) vs"
  let ?p = "\<lambda>k. if k < i then k else Suc k"
  have len: "length ?us = length vs - 1" using assms(2) by simp
  have nth: "?p k < length vs \<and> ?us ! k = vs ! ?p k" if "k < length ?us" for k
    using that assms(2) by (auto simp: nth_append min_def)
  have inj: "?p k \<noteq> ?p l" if "k \<noteq> l" for k l using that by auto
  have sub: "state_ok (?us, w)"
  proof (rule state_ok_sub [OF assms(1), where us = ?us and p = ?p])
    show "\<And>k. k < length ?us \<Longrightarrow> ?p k < length vs \<and> ?us ! k = vs ! ?p k" by (rule nth)
    show "\<And>k l. k < length ?us \<Longrightarrow> l < length ?us \<Longrightarrow> k \<noteq> l \<Longrightarrow> ?p k \<noteq> ?p l" by (rule inj)
  qed
  from wfv_dtor [OF ok(1) ok(2) [OF assms(2)]] assms(3)
  have h: "heap w' = (heap w)(m_data (vs ! i) := None)" "next_addr w' = next_addr w" by auto
  show ?thesis
  proof (rule state_ok_delete [OF sub h])
    fix k assume k: "k < length ?us" "m_data (?us ! k) \<noteq> 0"
    have "?p k \<noteq> i" by auto
    then show "m_data (?us ! k) \<noteq> m_data (vs ! i)"
      using ok(3) [of "?p k" i] nth [OF k(1)] k(2) assms(2) by simp
  qed
qed

lemma state_ok_swap:
  assumes "state_ok (vs, w)" "i < length vs" "j < length vs"
  shows "state_ok (vs[i := fst (swap_vec (vs ! i) (vs ! j)), j := snd (swap_vec (vs ! i) (vs ! j))], w)"
proof -
  let ?us = "vs[i := vs ! j, j := vs ! i]"
  let ?p = "\<lambda>k. if k = i then j else if k = j then i else k"
  have nth: "?p k < length vs \<and> ?us ! k = vs ! ?p k" if "k < length ?us" for k
    using that assms(2,3) by (auto simp: nth_list_update)
  have inj: "?p k \<noteq> ?p l" if "k \<noteq> l" for k l using that by auto
  have "state_ok (?us, w)"
  proof (rule state_ok_sub [OF assms(1), where us = ?us and p = ?p])
    show "\<And>k. k < length ?us \<Longrightarrow> ?p k < length vs \<and> ?us ! k = vs ! ?p k" by (rule nth)
    show "\<And>k l. k < length ?us \<Longrightarrow> l < length ?us \<Longrightarrow> k \<noteq> l \<Longrightarrow> ?p k \<noteq> ?p l" by (rule inj)
  qed
  then show ?thesis by (simp add: swap_vec_eq)
qed

lemma step_state_ok:
  assumes "step c c'" "state_ok c"
  shows "state_ok c'"
  using assms
proof (induction rule: step.induct)
  case (construct vs w)
  then show ?case by (rule state_ok_snoc_null)
next
  case (copy_construct i vs w v' w')
  note ok = state_okD [OF copy_construct(3)]
  have op: "ok_post vector_ctor w v' w'"
    using vector_copy_post [OF ok(1) ok(2) [OF copy_construct(1)]] copy_construct(2) by simp
  have "state_ok ((vs @ [vector_ctor])[length vs := v'], w')"
    by (rule state_ok_update [OF state_ok_snoc_null [OF copy_construct(3)]]) (simp_all add: op)
  then show ?case by simp
next
  case (copy_construct_throws i vs w e w')
  note ok = state_okD [OF copy_construct_throws(3)]
  have "heap w' = heap w \<and> next_addr w \<le> next_addr w'"
    using vector_copy_post [OF ok(1) ok(2) [OF copy_construct_throws(1)]] copy_construct_throws(2)
    by simp
  then show ?case by (intro state_ok_same_heap [OF copy_construct_throws(3)]) simp_all
next
  case (destruct i vs w w')
  show ?case by (rule state_ok_destruct [OF destruct(3,1,2)])
next
  case (assignment i vs j w v' w')
  note ok = state_okD [OF assignment(4)]
  have "basic_post (vs ! i) w (assign (vs ! i) (vs ! j) w)"
    by (rule assign_post [OF ok(1) ok(2) [OF assignment(1)] ok(2) [OF assignment(2)]])
  then have "ok_post (vs ! i) w v' w'" using assignment(3) by (rule basic_final)
  then show ?case by (rule state_ok_update [OF assignment(4,1)])
next
  case (swapping i vs j w)
  show ?case by (rule state_ok_swap [OF swapping(3,1,2)])
next
  case (member i vs c w v' w')
  note ok = state_okD [OF member(3)]
  have "ok_post (vs ! i) w v' w'" by (rule run_call_post [OF ok(1) ok(2) [OF member(1)] member(2)])
  then show ?case by (rule state_ok_update [OF member(3,1)])
next
  case (set_throw_countdown vs w k)
  show ?case by (rule state_ok_same_heap [OF set_throw_countdown]) simp_all
qed

lemma reachable_state_ok: "reachable c \<Longrightarrow> state_ok c"
proof (induction rule: reachable.induct)
  case start
  show ?case by (simp add: state_ok_def init_def wfw_def)
next
  case (after c c')
  show ?case by (rule step_state_ok [OF after(2) after(3)])
qed


lemma reachable_wf:
  assumes "reachable (vs, w)" "v \<in> set vs"
  shows "wfw w" "wfv v w"
proof -
  have ok: "state_ok (vs, w)" by (rule reachable_state_ok [OF assms(1)])
  show "wfw w" by (rule state_okD(1) [OF ok])
  from assms(2) obtain i where "i < length vs" "vs ! i = v" by (auto simp: in_set_conv_nth)
  then show "wfv v w" using state_okD(2) [OF ok, of i] by simp
qed

section \<open>Programs that reach the states used below\<close>

lemma init_eq: "init = ([], snd init)"
  by (simp add: init_def)

lemma reach_fresh: "reachable ([vector_ctor], snd (init :: 'a config))"
proof -
  have "reachable (init :: 'a config)" by (rule reachable.start)
  then have "reachable ([], snd (init :: 'a config))" by (simp add: init_def)
  from reachable.after [OF this step.construct] show ?thesis by simp
qed

lemma reach_reserved: "reachable ([v_reserved], w_reserved)"
proof -
  have "step ([vector_ctor], snd init) ([vector_ctor][0 := v_reserved], w_reserved)"
    by (rule step.member [where c = "Reserve 10"]) (simp_all add: reserve_10)
  from reachable.after [OF reach_fresh this] show ?thesis by simp
qed



definition v_shrunk :: vec where
  "v_shrunk = \<lparr>m_data = 2, m_size = 0, m_capacity = 0\<rparr>"

definition w_shrunk :: "nat world" where
  "w_shrunk = \<lparr>heap = (\<lambda>a. None)(2 \<mapsto> []), next_addr = 3,
               throw_countdown = 0, instances = 0, dtor_log = []\<rparr>"

lemma shrink_reserved: "shrink_to_fit v_reserved w_reserved = Ok () (v_shrunk, w_shrunk)"
  by (auto simp: eval_defs v_reserved_def w_reserved_def v_shrunk_def w_shrunk_def fun_eq_iff)

lemma reach_shrunk: "reachable ([v_shrunk], w_shrunk)"
proof -
  have "step ([v_reserved], w_reserved) ([v_reserved][0 := v_shrunk], w_shrunk)"
    by (rule step.member [where c = ShrinkToFit]) (simp_all add: shrink_reserved)
  from reachable.after [OF reach_reserved this] show ?thesis by simp
qed

text \<open>
  The value of \<^verbatim>\<open>insert\<close> is read where the code reads it. With
  \<^verbatim>\<open>a.insert(a.begin(), a[0])\<close> on \<open>[1, 2, 3]\<close> with capacity four, the branch
  without growth shifts the elements first and then assigns \<^verbatim>\<open>*pos = val\<close> through the
  reference, which by then denotes the shifted element \<open>3\<close>.
\<close>

definition v_three :: vec where
  "v_three = \<lparr>m_data = 1, m_size = 3, m_capacity = 4\<rparr>"

definition w_three :: "nat world" where
  "w_three = \<lparr>heap = (\<lambda>a. None)(1 \<mapsto> [Some 1, Some 2, Some 3, None]), next_addr = 2,
              throw_countdown = 0, instances = 3, dtor_log = []\<rparr>"

lemma insert_element_of_itself:
  "\<exists>v' w'. insert_it v_three (vbegin v_three) (Element (1, 0)) w_three
       = Some (Ok (1, 0) (v', w')) \<and> elems v' w' = [3, 1, 2, 3]"
  by (simp add: insert_it_def insert_shift.simps eval_defs elems_def slots_def
      v_three_def w_three_def)



text \<open>
  Claim C3, amended. In every reachable state a container with a null data pointer has
  capacity zero (and size zero), so a container with capacity has a data pointer that is
  not null; and a data pointer that is not null is the address of an allocated block.
  The converse fails: \<^verbatim>\<open>operator new\<close> returns a non-null pointer also for zero bytes,
  so \<^verbatim>\<open>new_buffer(0)\<close> leaves capacity zero with a data pointer that is not null.
\<close>

theorem null_data_pointer_means_no_capacity:
  assumes "reachable (vs, w)" "v \<in> set vs"
  shows "(m_data v = 0 \<longrightarrow> m_capacity v = 0 \<and> m_size v = 0) \<and>
    (m_capacity v \<noteq> 0 \<longrightarrow> m_data v \<noteq> 0) \<and>
    (m_data v \<noteq> 0 \<longrightarrow> heap w (m_data v) \<noteq> None)"
proof -
  note wf = reachable_wf [OF assms]
  have a: "m_data v = 0 \<longrightarrow> m_capacity v = 0 \<and> m_size v = 0" using wfv_null [OF wf(2)] by simp
  have "heap w (m_data v) \<noteq> None" if "m_data v \<noteq> 0"
    using wfv_block [OF wf(2) that] by auto
  then show ?thesis using a by auto
qed

theorem null_data_pointer_means_no_capacity_witness:
  "reachable ([vector_ctor], snd init) \<and> m_data vector_ctor = 0 \<and> m_capacity vector_ctor = 0 \<and>
   reachable ([v_reserved], w_reserved) \<and> m_capacity v_reserved = 10 \<and> m_data v_reserved = 1 \<and>
   heap w_reserved 1 \<noteq> None"
proof -
  have a: "vector_ctor \<in> set [vector_ctor]" and b: "v_reserved \<in> set [v_reserved]" by simp_all
  have z: "m_data vector_ctor = 0" by (simp add: vector_ctor_def)
  have c: "m_capacity v_reserved = 10" "m_data v_reserved = 1" by (simp_all add: v_reserved_def)
  have "m_capacity vector_ctor = (0 :: size_t)"
    using null_data_pointer_means_no_capacity [OF reach_fresh [where 'a = nat] a] z by simp
  moreover have "heap w_reserved 1 \<noteq> None"
    using null_data_pointer_means_no_capacity [OF reach_reserved b] c by simp
  ultimately show ?thesis using reach_fresh reach_reserved z c by simp
qed

text \<open>
  Claim C3 as stated: after \<^verbatim>\<open>vector a; a.reserve(10); a.shrink_to_fit();\<close> the
  container is empty with capacity \<open>0\<close>, and its data pointer is block \<open>2\<close>, a block
  of no slots; a copy of an empty container has capacity \<open>0\<close> and block \<open>1\<close>.
\<close>

theorem zero_capacity_with_non_null_data:
  "reachable ([v_shrunk], w_shrunk) \<and> m_capacity v_shrunk = 0 \<and> m_data v_shrunk = 2 \<and>
   heap w_shrunk (m_data v_shrunk) = Some [] \<and>
   (\<exists>w'. vector_copy vector_ctor (snd init)
       = Ok \<lparr>m_data = 1, m_size = 0, m_capacity = 0\<rparr> (w' :: nat world))"
proof -
  have "\<exists>w'. vector_copy vector_ctor (snd init)
       = Ok \<lparr>m_data = 1, m_size = 0, m_capacity = 0\<rparr> (w' :: nat world)"
    by (simp add: vector_copy_def eval_defs)
  then show ?thesis using reach_shrunk by (simp add: v_shrunk_def w_shrunk_def)
qed

end
